theory Spec2Isabelle
  imports Main "HOL-Library.Word"
begin

unbundle bit_operations_syntax

section \<open>Physical memory\<close>

text \<open>
  Both managers are kernel code for a 64-bit little-endian RISC-V machine. Physical memory is
  a function from 64-bit addresses to bytes. A pointer stored in memory (the \<open>next\<close> field of
  \<open>struct run\<close>, the only field of that struct, at offset 0) occupies eight bytes, least
  significant byte first.
\<close>

type_synonym addr = "64 word"
type_synonym byte = "8 word"
type_synonym memory = "addr \<Rightarrow> byte"

definition le64 :: "byte \<Rightarrow> byte \<Rightarrow> byte \<Rightarrow> byte \<Rightarrow> byte \<Rightarrow> byte \<Rightarrow> byte \<Rightarrow> byte \<Rightarrow> addr" where
  "le64 b0 b1 b2 b3 b4 b5 b6 b7 =
     ucast b0 OR push_bit 8 (ucast b1) OR push_bit 16 (ucast b2) OR push_bit 24 (ucast b3) OR
     push_bit 32 (ucast b4) OR push_bit 40 (ucast b5) OR push_bit 48 (ucast b6) OR
     push_bit 56 (ucast b7)"

definition byte_of :: "addr \<Rightarrow> nat \<Rightarrow> byte" where
  "byte_of v k = ucast (drop_bit (8 * k) v)"

definition load64 :: "memory \<Rightarrow> addr \<Rightarrow> addr" where
  "load64 m a =
     le64 (m a) (m (a + 1)) (m (a + 2)) (m (a + 3)) (m (a + 4)) (m (a + 5)) (m (a + 6)) (m (a + 7))"

definition store64 :: "memory \<Rightarrow> addr \<Rightarrow> addr \<Rightarrow> memory" where
  "store64 m a v = (\<lambda>x. if x - a < 8 then byte_of v (unat (x - a)) else m x)"

text \<open>
  Modelled from the spec: string.c is not among the sources. \<open>memset(dst, c, n)\<close> overwrites
  the \<open>n\<close> bytes from \<open>dst\<close> on with the byte \<open>c\<close> (the spec's ``overwrites the page's
  contents with a fixed filler byte pattern'').
\<close>

definition memset :: "memory \<Rightarrow> addr \<Rightarrow> byte \<Rightarrow> addr \<Rightarrow> memory" where
  "memset m dst c n = (\<lambda>x. if x - dst < n then c else m x)"

text \<open>
  Modelled from the spec: riscv.h is not among the sources. A page is a fixed-size unit of
  4096 bytes (also kalloc.c's own header comment), and an address is page-aligned when it is
  a multiple of that, as \<open>kfree\<close> tests with \<open>(uint64)pa % PGSIZE\<close>.
\<close>

definition PGSIZE :: addr where
  "PGSIZE = 4096"

definition pgaligned :: "addr \<Rightarrow> bool" where
  "pgaligned a \<longleftrightarrow> a mod PGSIZE = 0"

section \<open>The page allocator (kalloc.c)\<close>

text \<open>
  \<open>kmem[NCPU]\<close>: one pool per core. The spin lock of a pool is the flag ``held by the running
  core''; \<open>freelen\<close> is a C \<open>int\<close>, which the number of pages of the machine keeps far below
  \<open>2^31\<close>. \<open>NCPU\<close> is the length of the pool array.
\<close>

record pool =
  lock :: bool
  freelist :: addr
  freelen :: int

record kstate =
  mem :: memory
  kmem :: "pool list"

text \<open>
  A call that does not return normally: \<open>panic(msg)\<close>, or an access through a pointer that
  is null or has left the object it pointed into (a kernel fault; C gives it no meaning).
\<close>

datatype fault = Panic string | Fault

text \<open>
  Modelled from the spec: spinlock.c is not among the sources. The spec describes the pool,
  bucket and global locks as short mutual-exclusion locks; one call is executed at a time
  here, so \<open>acquire\<close> sets the flag, \<open>release\<close> clears it and \<open>holding\<close> reads it.
\<close>

definition acquire :: "nat \<Rightarrow> pool list \<Rightarrow> pool list" where
  "acquire i ps = ps[i := (ps ! i)\<lparr>lock := True\<rparr>]"

definition release :: "nat \<Rightarrow> pool list \<Rightarrow> pool list" where
  "release i ps = ps[i := (ps ! i)\<lparr>lock := False\<rparr>]"

definition holding :: "nat \<Rightarrow> pool list \<Rightarrow> bool" where
  "holding i ps = lock (ps ! i)"

text \<open>
  The donor scan of \<open>reschedule\<close>: the body of \<open>for(i = 0; i < NCPU; i++)\<close>, on the triple
  of the pool array, \<open>maxid\<close> and \<open>maxlen\<close>.
\<close>

definition scan_step :: "nat \<Rightarrow> pool list \<times> int \<times> int \<Rightarrow> nat \<Rightarrow> pool list \<times> int \<times> int" where
  "scan_step cid st i =
     (case st of (ps, maxid, maxlen) \<Rightarrow>
        if i = cid then (ps, maxid, maxlen)
        else
          let ps1 = acquire i ps in
          if freelen (ps1 ! i) > maxlen
          then ((if maxid \<noteq> - 1 then release (nat maxid) ps1 else ps1), int i, freelen (ps1 ! i))
          else (release i ps1, maxid, maxlen))"

definition scan :: "nat \<Rightarrow> pool list \<Rightarrow> pool list \<times> int \<times> int" where
  "scan cid ps = foldl (scan_step cid) (ps, - 1, 0) [0..<length ps]"

text \<open>
  The slow/fast walk \<open>while(fp && fp->next) { fp = fp->next->next; r = r->next; }\<close>.
  On a cyclic list it does not end: the value is then \<open>None\<close>.
\<close>

partial_function (option) midwalk :: "memory \<Rightarrow> addr \<Rightarrow> addr \<Rightarrow> addr option" where
  "midwalk m fp r =
     (if fp \<noteq> 0 \<and> load64 m fp \<noteq> 0
      then midwalk m (load64 m (load64 m fp)) (load64 m r)
      else Some r)"

declare midwalk.simps [code]

text \<open>
  \<open>reschedule(id)\<close>; the argument is called \<open>cid\<close> here. The donor's \<open>freelen\<close> is greater
  than \<open>maxlen \<ge> 0\<close> where it is halved, so C's truncating \<open>/\<close> and \<open>%\<close> agree with
  \<open>div\<close> and \<open>mod\<close> there.
\<close>

definition reschedule :: "kstate \<Rightarrow> nat \<Rightarrow> (fault + addr \<times> kstate) option" where
  "reschedule s cid =
     (if \<not> holding cid (kmem s) then Some (Inl (Panic ''rechedule lock error1''))
      else if freelist (kmem s ! cid) \<noteq> 0 then Some (Inr (0, s))
      else
        case scan cid (kmem s) of (ps, maxid, maxlen) \<Rightarrow>
          if maxid = - 1 then Some (Inr (0, s\<lparr>kmem := ps\<rparr>))
          else
            let d = nat maxid in
            if \<not> holding d ps then Some (Inl (Panic ''rechedule lock error2''))
            else
              let r0 = freelist (ps ! d) in
              if r0 \<noteq> 0 then
                (case midwalk (mem s) r0 r0 of
                   None \<Rightarrow> None
                 | Some r \<Rightarrow>
                     if r = r0 then
                       let ps1 = ps[d := (ps ! d)\<lparr>freelist := 0, freelen := 0\<rparr>];
                           ps2 = ps1[cid := (ps1 ! cid)\<lparr>freelist := 0, freelen := 0\<rparr>]
                       in Some (Inr (r, s\<lparr>kmem := release d ps2\<rparr>))
                     else
                       let ps1 = ps[cid := (ps ! cid)\<lparr>freelist := freelist (ps ! d)\<rparr>];
                           ps2 = ps1[d := (ps1 ! d)\<lparr>freelist := load64 (mem s) r\<rparr>];
                           m1 = store64 (mem s) r 0;
                           ps3 =
                             (if freelen (ps2 ! d) mod 2 = 0 then
                                let ps' = ps2[d := (ps2 ! d)\<lparr>freelen := freelen (ps2 ! d) div 2 - 1\<rparr>]
                                in ps'[cid := (ps' ! cid)\<lparr>freelen := freelen (ps' ! d) + 1\<rparr>]
                              else
                                let ps' = ps2[d := (ps2 ! d)\<lparr>freelen := freelen (ps2 ! d) div 2\<rparr>]
                                in ps'[cid := (ps' ! cid)\<lparr>freelen := freelen (ps' ! d)\<rparr>]);
                           ps4 = release d ps3;
                           r' = freelist (ps4 ! cid);
                           ps5 = ps4[cid := (ps4 ! cid)\<lparr>freelist := load64 m1 r'\<rparr>]
                       in Some (Inr (r', \<lparr>mem = m1, kmem = ps5\<rparr>)))
              else Some (Inr (0, s\<lparr>kmem := release d ps\<rparr>)))"

text \<open>
  \<open>kfree(pa)\<close> on core \<open>cpu\<close>. \<open>end\<close> (the first address after the kernel) and \<open>PHYSTOP\<close>
  come from the linker script and memlayout.h; they are parameters here.
\<close>

record layout =
  kend :: addr
  PHYSTOP :: addr

definition kfree :: "layout \<Rightarrow> nat \<Rightarrow> kstate \<Rightarrow> addr \<Rightarrow> fault + kstate" where
  "kfree L cpu s pa =
     (if pa mod PGSIZE \<noteq> 0 \<or> pa < kend L \<or> pa \<ge> PHYSTOP L then Inl (Panic ''kfree'')
      else
        let m1 = memset (mem s) pa 1 PGSIZE;
            ps = acquire cpu (kmem s);
            m2 = store64 m1 pa (freelist (ps ! cpu));
            ps1 = ps[cpu := (ps ! cpu)\<lparr>freelist := pa\<rparr>];
            ps2 = ps1[cpu := (ps1 ! cpu)\<lparr>freelen := freelen (ps1 ! cpu) + 1\<rparr>]
        in Inr \<lparr>mem = m2, kmem = release cpu ps2\<rparr>)"

text \<open>\<open>kalloc()\<close> on core \<open>cpu\<close>; the null pointer is \<open>0\<close>.\<close>

definition kalloc :: "kstate \<Rightarrow> nat \<Rightarrow> (fault + addr \<times> kstate) option" where
  "kalloc s cpu =
     (let ps = acquire cpu (kmem s);
          r = freelist (ps ! cpu)
      in
        case (if r \<noteq> 0
              then
                let ps1 = ps[cpu := (ps ! cpu)\<lparr>freelist := load64 (mem s) r\<rparr>];
                    ps2 = ps1[cpu := (ps1 ! cpu)\<lparr>freelen := freelen (ps1 ! cpu) - 1\<rparr>]
                in Some (Inr (r, s\<lparr>kmem := ps2\<rparr>))
              else reschedule (s\<lparr>kmem := ps\<rparr>) cpu) of
          None \<Rightarrow> None
        | Some (Inl e) \<Rightarrow> Some (Inl e)
        | Some (Inr (r, s1)) \<Rightarrow>
            let s2 = s1\<lparr>kmem := release cpu (kmem s1)\<rparr>
            in Some (Inr (r, if r \<noteq> 0 then s2\<lparr>mem := memset (mem s2) r 5 PGSIZE\<rparr> else s2)))"

subsection \<open>Free lists as sequences of pages\<close>

text \<open>
  \<open>islist m p xs\<close>: following \<open>next\<close> from \<open>p\<close> in memory \<open>m\<close> visits exactly the pages \<open>xs\<close>
  and ends at the null pointer. \<open>managed L p\<close>: \<open>p\<close> is a page \<open>kfree\<close> accepts.
  \<open>pools_ok L s pss held\<close>: in state \<open>s\<close> pool \<open>i\<close> holds the pages \<open>pss ! i\<close>, its count is their
  number, no page is in two places, and exactly the locks in \<open>held\<close> are held.
\<close>

fun islist :: "memory \<Rightarrow> addr \<Rightarrow> addr list \<Rightarrow> bool" where
  "islist m p [] = (p = 0)"
| "islist m p (x # xs) = (p = x \<and> p \<noteq> 0 \<and> islist m (load64 m p) xs)"

definition managed :: "layout \<Rightarrow> addr \<Rightarrow> bool" where
  "managed L p \<longleftrightarrow> pgaligned p \<and> kend L \<le> p \<and> p < PHYSTOP L \<and> p \<noteq> 0"

definition pools_ok :: "layout \<Rightarrow> kstate \<Rightarrow> addr list list \<Rightarrow> nat set \<Rightarrow> bool" where
  "pools_ok L s pss held \<longleftrightarrow>
     length pss = length (kmem s) \<and>
     (\<forall>i<length pss.
        islist (mem s) (freelist (kmem s ! i)) (pss ! i) \<and>
        freelen (kmem s ! i) = int (length (pss ! i)) \<and>
        (lock (kmem s ! i) \<longleftrightarrow> i \<in> held) \<and>
        distinct (pss ! i) \<and> (\<forall>p\<in>set (pss ! i). managed L p)) \<and>
     (\<forall>i<length pss. \<forall>j<length pss. i \<noteq> j \<longrightarrow> set (pss ! i) \<inter> set (pss ! j) = {})"

text \<open>The invariant of the donor scan after \<open>k\<close> rounds, on the pool array \<open>ps\<close> it started from.\<close>

definition scan_inv :: "nat \<Rightarrow> pool list \<Rightarrow> nat \<Rightarrow> pool list \<times> int \<times> int \<Rightarrow> bool" where
  "scan_inv cid ps k st =
     (case st of (ps', mi, ml) \<Rightarrow>
        (mi = - 1 \<and> ml = 0 \<and> ps' = ps \<and> (\<forall>i<k. i \<noteq> cid \<longrightarrow> freelen (ps ! i) \<le> 0)) \<or>
        (\<exists>d<k. d \<noteq> cid \<and> mi = int d \<and> ml = freelen (ps ! d) \<and> 0 < ml \<and> ps' = acquire d ps \<and>
           (\<forall>i<k. i \<noteq> cid \<longrightarrow> freelen (ps ! i) \<le> ml) \<and>
           (\<forall>i<d. i \<noteq> cid \<longrightarrow> freelen (ps ! i) < ml)))"

section \<open>The buffer cache (bio.c)\<close>

text \<open>
  A \<open>struct buf *\<close> is the null pointer, the address of the list head of a bucket
  (\<open>&table[i].head\<close>) or the address of a slot (\<open>&bcache.buf[j]\<close>).
\<close>

datatype bref = Null | Head nat | Slot nat

text \<open>
  Modelled from the spec: buf.h is not among the sources. A slot has a device id, a block
  number, a validity flag, a reference count, a last-release time stamp, an exclusive lock
  and the forward link of its bucket's list; these are the fields bio.c uses. The device,
  the block number, the count and the time stamp are 32-bit unsigned (\<open>bget\<close> takes them as
  \<open>uint\<close> and compares the time stamp with a \<open>uint\<close>). The sleep lock is the flag ``held''
  together with the process that holds it (\<open>spid\<close>, 0 while the lock is free): the spec's
  \<open>write\<close> and \<open>release\<close> require that the caller holds the lock. The block data is not
  modelled: the calls of the disk driver are recorded instead.
\<close>

record buf =
  valid :: bool
  dev :: "32 word"
  blockno :: "32 word"
  slock :: bool
  spid :: nat
  refcnt :: "32 word"
  nxt :: bref
  timestamp :: "32 word"

text \<open>\<open>struct hashtable\<close>: a spin lock and the list head, itself a \<open>struct buf\<close>.\<close>

record hashtable =
  tlock :: bool
  head :: buf

text \<open>
  The state of the cache: \<open>bcache.lock\<close>, \<open>bcache.buf[NBUF]\<close>, \<open>table[NBUCKET]\<close>, the clock
  \<open>ticks\<close>, the log of disk transfers (write flag, device, block), and the process that is
  running the call (\<open>curproc\<close>, the pid of \<open>myproc()\<close>). \<open>NBUF\<close> and \<open>NBUCKET\<close>
  are the lengths of the two arrays. \<open>past_refcnt\<close> is the word that a read of
  \<open>bcache.buf[NBUF].refcnt\<close> finds: memory behind the array, whatever the linker put there.
\<close>

record bstate =
  glock :: bool
  bufs :: "buf list"
  past_refcnt :: "32 word"
  table :: "hashtable list"
  ticks :: "32 word"
  disk_log :: "(bool \<times> 32 word \<times> 32 word) list"
  curproc :: nat

fun deref :: "bstate \<Rightarrow> bref \<Rightarrow> buf option" where
  "deref s Null = None"
| "deref s (Head i) = (if i < length (table s) then Some (head (table s ! i)) else None)"
| "deref s (Slot j) = (if j < length (bufs s) then Some (bufs s ! j) else None)"

fun modify :: "bref \<Rightarrow> (buf \<Rightarrow> buf) \<Rightarrow> bstate \<Rightarrow> bstate" where
  "modify Null f s = s"
| "modify (Head i) f s = s\<lparr>table := (table s)[i := (table s ! i)\<lparr>head := f (head (table s ! i))\<rparr>]\<rparr>"
| "modify (Slot j) f s = s\<lparr>bufs := (bufs s)[j := f (bufs s ! j)]\<rparr>"

definition acquire_bucket :: "nat \<Rightarrow> bstate \<Rightarrow> bstate" where
  "acquire_bucket i s = s\<lparr>table := (table s)[i := (table s ! i)\<lparr>tlock := True\<rparr>]\<rparr>"

definition release_bucket :: "nat \<Rightarrow> bstate \<Rightarrow> bstate" where
  "release_bucket i s = s\<lparr>table := (table s)[i := (table s ! i)\<lparr>tlock := False\<rparr>]\<rparr>"

text \<open>
  Modelled from the spec: sleeplock.c is not among the sources. The spec's exclusive lock of a
  slot blocks the caller while another owner holds it; with one call executing nobody
  releases it, so \<open>acquiresleep\<close> on a held lock does not return (\<open>None\<close>). On a free lock the
  caller becomes its holder.
\<close>

definition acquiresleep :: "bref \<Rightarrow> bstate \<Rightarrow> (fault + bref \<times> bstate) option" where
  "acquiresleep b s =
     (case deref s b of
        None \<Rightarrow> Some (Inl Fault)
      | Some x \<Rightarrow>
          if slock x then None
          else Some (Inr (b, modify b (\<lambda>x. x\<lparr>slock := True, spid := curproc s\<rparr>) s)))"

text \<open>
  Modelled from the spec: sleeplock.c is not among the sources. \<open>write\<close> and \<open>release\<close> require
  that the caller holds the slot's exclusive lock: \<open>holdingsleep\<close> is true when the lock is held
  and the running process is its holder.
\<close>

definition holdingsleep :: "bstate \<Rightarrow> buf \<Rightarrow> bool" where
  "holdingsleep s x \<longleftrightarrow> slock x \<and> spid x = curproc s"

text \<open>
  Modelled from the spec: the disk driver is an external collaborator that transfers one
  block between the device and the slot; the transfer is appended to the log.
\<close>

definition virtio_disk_rw :: "bref \<Rightarrow> bool \<Rightarrow> bstate \<Rightarrow> bstate" where
  "virtio_disk_rw b w s =
     (case deref s b of
        None \<Rightarrow> s
      | Some x \<Rightarrow> s\<lparr>disk_log := disk_log s @ [(w, dev x, blockno x)]\<rparr>)"

text \<open>
  \<open>int hash(int blockno) { return blockno % NBUCKET; }\<close>: the block number arrives as an
  \<open>int\<close>, and C's \<open>%\<close> truncates, so the result has the sign of the dividend.
\<close>

definition crem :: "int \<Rightarrow> int \<Rightarrow> int" where
  "crem a b = sgn a * (\<bar>a\<bar> mod \<bar>b\<bar>)"

definition hash :: "nat \<Rightarrow> 32 word \<Rightarrow> int" where
  "hash nbucket bn = crem (sint bn) (int nbucket)"

text \<open>
  \<open>binit\<close> on the zero-initialised arrays: every slot gets block number \<open>-1\<close> and a free sleep
  lock, every bucket a free lock and an empty circular list. No slot is in a bucket yet.
  \<open>past\<close> is the word behind the slot array and \<open>pid\<close> the running process.
\<close>

definition binit :: "nat \<Rightarrow> nat \<Rightarrow> 32 word \<Rightarrow> nat \<Rightarrow> bstate" where
  "binit nbuf nbucket past pid =
     \<lparr>glock = False,
      bufs = replicate nbuf
        \<lparr>valid = False, dev = 0, blockno = - 1, slock = False, spid = 0, refcnt = 0, nxt = Null, timestamp = 0\<rparr>,
      past_refcnt = past,
      table = map (\<lambda>i. \<lparr>tlock = False,
        head = \<lparr>valid = False, dev = 0, blockno = 0, slock = False, spid = 0, refcnt = 0, nxt = Head i,
                 timestamp = 0\<rparr>\<rparr>) [0..<nbucket],
      ticks = 0,
      disk_log = [],
      curproc = pid\<rparr>"

text \<open>
  The first loop of \<open>bget\<close>: \<open>for(b = bucket->head.next; b != &bucket->head; b = b->next)\<close>
  looking for the block. \<open>Inr (Some b)\<close> is the hit, \<open>Inr None\<close> the end of the list. On a list
  that does not lead back to the head the loop faults at a null pointer or does not end.
\<close>

partial_function (option) scan_cached ::
  "bstate \<Rightarrow> nat \<Rightarrow> 32 word \<Rightarrow> 32 word \<Rightarrow> bref \<Rightarrow> (fault + bref option) option" where
  "scan_cached s idx d bn b =
     (if b = Head idx then Some (Inr None)
      else
        case deref s b of
          None \<Rightarrow> Some (Inl Fault)
        | Some x \<Rightarrow>
            if dev x = d \<and> blockno x = bn then Some (Inr (Some b))
            else scan_cached s idx d bn (nxt x))"

declare scan_cached.simps [code]

text \<open>The second loop: the unused buffer of the bucket with the smallest time stamp.\<close>

partial_function (option) scan_lru ::
  "bstate \<Rightarrow> nat \<Rightarrow> bref \<Rightarrow> 32 word \<Rightarrow> bref \<Rightarrow> (fault + bref) option" where
  "scan_lru s idx b mintime replbuf =
     (if b = Head idx then Some (Inr replbuf)
      else
        case deref s b of
          None \<Rightarrow> Some (Inl Fault)
        | Some x \<Rightarrow>
            if refcnt x = 0 \<and> timestamp x < mintime
            then scan_lru s idx (nxt x) (timestamp x) b
            else scan_lru s idx (nxt x) mintime replbuf)"

declare scan_lru.simps [code]

text \<open>
  The scan of all slots, \<open>for(b = bcache.buf; b < bcache.buf + NBUF; b++)\<close>, with \<open>mintime\<close>
  reset to \<open>0xffffffff\<close> before it; \<open>replbuf\<close> keeps its value when no slot qualifies.
\<close>

definition scan_all :: "buf list \<Rightarrow> bref \<Rightarrow> bref" where
  "scan_all bs replbuf =
     snd (foldl (\<lambda>(mintime, r) j.
                   if refcnt (bs ! j) = 0 \<and> timestamp (bs ! j) < mintime
                   then (timestamp (bs ! j), Slot j) else (mintime, r))
                (0xffffffff, replbuf) [0..<length bs])"

text \<open>The label \<open>find:\<close> of \<open>bget\<close>: bind the slot, release the bucket, take the sleep lock.\<close>

definition bget_find :: "bstate \<Rightarrow> nat \<Rightarrow> 32 word \<Rightarrow> 32 word \<Rightarrow> bref \<Rightarrow> (fault + bref \<times> bstate) option" where
  "bget_find s idx d bn replbuf =
     (case deref s replbuf of
        None \<Rightarrow> Some (Inl Fault)
      | Some _ \<Rightarrow>
          let s1 = modify replbuf (\<lambda>x. x\<lparr>dev := d\<rparr>) s;
              s2 = modify replbuf (\<lambda>x. x\<lparr>blockno := bn\<rparr>) s1;
              s3 = modify replbuf (\<lambda>x. x\<lparr>valid := False\<rparr>) s2;
              s4 = modify replbuf (\<lambda>x. x\<lparr>refcnt := 1\<rparr>) s3;
              s5 = release_bucket idx s4
          in acquiresleep replbuf s5)"

text \<open>
  After the \<open>break\<close>: \<open>for(b = &rbucket->head; b->next != replbuf; b++) {}\<close> and the splice.
  The loop steps with \<open>b++\<close>, not along the list: when the old bucket's first slot is not
  \<open>replbuf\<close>, \<open>b\<close> leaves the head object and runs over whatever memory follows it, which
  is a \<open>Fault\<close> here. When the first slot is \<open>replbuf\<close> the loop stops at the head.
\<close>

definition bget_unlink ::
  "bstate \<Rightarrow> nat \<Rightarrow> 32 word \<Rightarrow> 32 word \<Rightarrow> bref \<Rightarrow> nat \<Rightarrow> (fault + bref \<times> bstate) option" where
  "bget_unlink s idx d bn replbuf ridx =
     (if nxt (head (table s ! ridx)) = replbuf then
        case deref s replbuf of
          None \<Rightarrow> Some (Inl Fault)
        | Some x \<Rightarrow>
            let s1 = modify (Head ridx) (\<lambda>h. h\<lparr>nxt := nxt x\<rparr>) s;
                s2 = release_bucket ridx s1;
                s3 = modify replbuf (\<lambda>x. x\<lparr>nxt := nxt (head (table s2 ! idx))\<rparr>) s2;
                s4 = modify (Head idx) (\<lambda>h. h\<lparr>nxt := replbuf\<rparr>) s3;
                s5 = s4\<lparr>glock := False\<rparr>
            in bget_find s5 idx d bn replbuf
      else Some (Inl Fault))"

text \<open>
  One round of the loop \<open>for(int i = 0; ; i++)\<close> after its scan, from \<open>if(replbuf)\<close> on
  with a chosen \<open>replbuf\<close>, in the state the cache has by then. \<open>Inl s'\<close>: the round ends in
  state \<open>s'\<close> and the loop goes round again. \<open>Inr res\<close>: the loop is left, through
  \<open>goto find\<close> for an unbound slot or through \<open>break\<close> and the unlinking, and \<open>bget\<close> ends with
  \<open>res\<close>. The test after \<open>acquire(&rbucket->lock)\<close> is \<open>b->refcnt == 0\<close>, and \<open>b\<close> is what the
  scan left it: \<open>bcache.buf + NBUF\<close>.
\<close>

definition bget_recheck ::
  "bstate \<Rightarrow> nat \<Rightarrow> 32 word \<Rightarrow> 32 word \<Rightarrow> bref \<Rightarrow> bstate + (fault + bref \<times> bstate) option" where
  "bget_recheck s idx d bn replbuf =
     (case deref s replbuf of
        None \<Rightarrow> Inr (Some (Inl Fault))
      | Some x \<Rightarrow>
          if blockno x = - 1 then
            let s1 = modify replbuf (\<lambda>x. x\<lparr>nxt := nxt (head (table s ! idx))\<rparr>) s;
                s2 = modify (Head idx) (\<lambda>h. h\<lparr>nxt := replbuf\<rparr>) s1;
                s3 = s2\<lparr>glock := False\<rparr>
            in Inr (bget_find s3 idx d bn replbuf)
          else
            let h = hash (length (table s)) (blockno x) in
            if h < 0 \<or> int (length (table s)) \<le> h then Inr (Some (Inl Fault))
            else
              let ridx = nat h;
                  s1 = acquire_bucket ridx s
              in
                if past_refcnt s1 = 0 then Inr (bget_unlink s1 idx d bn replbuf ridx)
                else Inl (release_bucket ridx s1))"

text \<open>
  The loop \<open>for(int i = 0; ; i++)\<close> under \<open>bcache.lock\<close>, from the head of a round with the
  current \<open>replbuf\<close>. The counter \<open>i\<close> is not used: the check on it is commented out, and the
  \<open>panic("bget: no buffers")\<close> behind the loop comes after an unconditional \<open>goto\<close>. While no
  round leaves the loop it does not end (\<open>None\<close>).
\<close>

partial_function (option) bget_evict ::
  "bstate \<Rightarrow> nat \<Rightarrow> 32 word \<Rightarrow> 32 word \<Rightarrow> bref \<Rightarrow> (fault + bref \<times> bstate) option" where
  "bget_evict s idx d bn replbuf =
     (let r = scan_all (bufs s) replbuf in
      if r \<noteq> Null then
        case bget_recheck s idx d bn r of
          Inl s' \<Rightarrow> bget_evict s' idx d bn r
        | Inr res \<Rightarrow> res
      else bget_evict s idx d bn r)"

declare bget_evict.simps [code]

text \<open>
  \<open>bget(dev, blockno)\<close>. An index outside \<open>table\<close> (a block number that is negative as an
  \<open>int\<close>) is a \<open>Fault\<close>.
\<close>

definition bget :: "bstate \<Rightarrow> 32 word \<Rightarrow> 32 word \<Rightarrow> (fault + bref \<times> bstate) option" where
  "bget s d bn =
     (let h = hash (length (table s)) bn in
      if h < 0 \<or> int (length (table s)) \<le> h then Some (Inl Fault)
      else
        let idx = nat h;
            s1 = acquire_bucket idx s
        in
          case scan_cached s1 idx d bn (nxt (head (table s1 ! idx))) of
            None \<Rightarrow> None
          | Some (Inl e) \<Rightarrow> Some (Inl e)
          | Some (Inr (Some b)) \<Rightarrow>
              let s2 = modify b (\<lambda>x. x\<lparr>refcnt := refcnt x + 1\<rparr>) s1;
                  s3 = release_bucket idx s2
              in acquiresleep b s3
          | Some (Inr None) \<Rightarrow>
              (case scan_lru s1 idx (nxt (head (table s1 ! idx))) 0xffffffff Null of
                 None \<Rightarrow> None
               | Some (Inl e) \<Rightarrow> Some (Inl e)
               | Some (Inr replbuf) \<Rightarrow>
                   if replbuf \<noteq> Null then bget_find s1 idx d bn replbuf
                   else bget_evict (s1\<lparr>glock := True\<rparr>) idx d bn replbuf))"

text \<open>\<open>bread(dev, blockno)\<close>: the disk is read only when the buffer is not valid.\<close>

definition bread :: "bstate \<Rightarrow> 32 word \<Rightarrow> 32 word \<Rightarrow> (fault + bref \<times> bstate) option" where
  "bread s d bn =
     (case bget s d bn of
        None \<Rightarrow> None
      | Some (Inl e) \<Rightarrow> Some (Inl e)
      | Some (Inr (b, s1)) \<Rightarrow>
          (case deref s1 b of
             None \<Rightarrow> Some (Inl Fault)
           | Some x \<Rightarrow>
               if \<not> valid x
               then Some (Inr (b, modify b (\<lambda>x. x\<lparr>valid := True\<rparr>) (virtio_disk_rw b False s1)))
               else Some (Inr (b, s1))))"

text \<open>
  \<open>brelse(b)\<close>: panics unless the caller holds the sleep lock of \<open>b\<close>; \<open>releasesleep\<close> frees the
  lock and clears its holder.
\<close>

definition brelse :: "bstate \<Rightarrow> bref \<Rightarrow> fault + bstate" where
  "brelse s b =
     (case deref s b of
        None \<Rightarrow> Inl Fault
      | Some x \<Rightarrow>
          if \<not> holdingsleep s x then Inl (Panic ''brelse'')
          else
            let s1 = modify b (\<lambda>x. x\<lparr>slock := False, spid := 0\<rparr>) s;
                h = hash (length (table s1)) (blockno x)
            in
              if h < 0 \<or> int (length (table s1)) \<le> h then Inl Fault
              else
                let idx = nat h;
                    s2 = acquire_bucket idx s1;
                    s3 = modify b (\<lambda>x. x\<lparr>refcnt := refcnt x - 1\<rparr>) s2;
                    s4 = (if refcnt x - 1 = 0 then modify b (\<lambda>x. x\<lparr>timestamp := ticks s3\<rparr>) s3 else s3)
                in Inr (release_bucket idx s4))"

subsection \<open>Buckets as sequences of slots\<close>

text \<open>
  \<open>bucket_of s bn\<close> is the bucket of block \<open>bn\<close> and \<open>cache_lookup s d bn\<close> the outcome of the first
  loop of \<open>bget s d bn\<close>. \<open>chain s idx b js\<close>: following \<open>next\<close> from \<open>b\<close> visits exactly the slots
  \<open>js\<close> and then arrives at the head of bucket \<open>idx\<close>.
\<close>

definition bucket_of :: "bstate \<Rightarrow> 32 word \<Rightarrow> nat" where
  "bucket_of s bn = nat (hash (length (table s)) bn)"

definition cache_lookup :: "bstate \<Rightarrow> 32 word \<Rightarrow> 32 word \<Rightarrow> (fault + bref option) option" where
  "cache_lookup s d bn =
     (let idx = bucket_of s bn;
          s1 = acquire_bucket idx s
      in scan_cached s1 idx d bn (nxt (head (table s1 ! idx))))"

fun chain :: "bstate \<Rightarrow> nat \<Rightarrow> bref \<Rightarrow> nat list \<Rightarrow> bool" where
  "chain s idx b [] = (b = Head idx)"
| "chain s idx b (j # js) = (b = Slot j \<and> j < length (bufs s) \<and> chain s idx (nxt (bufs s ! j)) js)"

subsection \<open>A cache of two slots and two buckets\<close>

text \<open>
  \<open>cache0\<close>: after \<open>binit\<close>, the word behind the slot array being 0 and process 1 running.
  \<open>after_calls\<close> runs a sequence of calls from a state: \<open>BRead d bn\<close> is \<open>bread(d, bn)\<close>,
  \<open>BRelse j\<close> is \<open>brelse\<close> of slot \<open>j\<close>, \<open>Tick t\<close> is the clock reaching \<open>t\<close>, \<open>Run p\<close> is process
  \<open>p\<close> taking over the core; a call that panics, faults or does not return leaves the state
  as it is.
\<close>

definition cache0 :: bstate where
  "cache0 = binit 2 2 0 1"

datatype bcall = BRead "32 word" "32 word" | BRelse nat | Tick "32 word" | Run nat

fun after_call :: "bstate \<Rightarrow> bcall \<Rightarrow> bstate" where
  "after_call s (BRead d bn) = (case bread s d bn of Some (Inr (b, s')) \<Rightarrow> s' | _ \<Rightarrow> s)"
| "after_call s (BRelse j) = (case brelse s (Slot j) of Inr s' \<Rightarrow> s' | Inl _ \<Rightarrow> s)"
| "after_call s (Tick t) = s\<lparr>ticks := t\<rparr>"
| "after_call s (Run p) = s\<lparr>curproc := p\<rparr>"

definition after_calls :: "bstate \<Rightarrow> bcall list \<Rightarrow> bstate" where
  "after_calls s cs = foldl after_call s cs"

text \<open>Scenario C: block 5 of device 1 has been read and released at time 3.\<close>

definition scenarioC :: bstate where
  "scenarioC = after_calls cache0 [BRead 1 5, Tick 3, BRelse 0]"

text \<open>
  Blocks 5 and 7 (both of bucket 1) have been read, so bucket 1 lists slot 1 before slot 0.
  \<open>both_held\<close>: both are still in use. \<open>both_released\<close>: block 5 was released at time 10 and
  block 7 at time 11, so slot 0 is the oldest unused slot.
\<close>

definition both_held :: bstate where
  "both_held = after_calls cache0 [BRead 1 5, BRead 1 7]"

definition both_released :: bstate where
  "both_released = after_calls both_held [Tick 10, BRelse 0, Tick 11, BRelse 1]"

text \<open>
  The other order: block 7 was released at time 10 and block 5 at time 11, so the oldest
  unused slot is slot 1, the first of bucket 1's list.
\<close>

definition first_is_oldest :: bstate where
  "first_is_oldest = after_calls both_held [Tick 10, BRelse 1, Tick 11, BRelse 0]"

text \<open>
  \<open>bget(1, 4)\<close> on \<open>first_is_oldest\<close> finds bucket 0 empty and scans all slots in the state
  \<open>scanning\<close>, holding the lock of bucket 0 and \<open>bcache.lock\<close>; the scan chooses slot 1, bound to
  block 7 and first in bucket 1. \<open>recheck_taken\<close> is the state at the re-check when, between the
  scan and \<open>acquire(&rbucket->lock)\<close>, another core's \<open>bget(1, 7)\<close> has found slot 1 in bucket 1
  and incremented its \<open>refcnt\<close> (and has not yet taken the sleep lock).
\<close>

definition scanning :: bstate where
  "scanning = (acquire_bucket 0 first_is_oldest)\<lparr>glock := True\<rparr>"

definition recheck_taken :: bstate where
  "recheck_taken = scanning\<lparr>bufs := (bufs scanning)[1 := (bufs scanning ! 1)\<lparr>refcnt := 1\<rparr>]\<rparr>"

text \<open>
  The same history on a machine where the word behind the slot array is 1: \<open>past_one\<close> is the
  cache after it, and \<open>recheck_unused\<close> the state in which \<open>bget(1, 4)\<close> scans all slots there
  and then comes to the re-check, nothing having changed: slot 1 is still unused.
\<close>

definition past_one :: bstate where
  "past_one =
     after_calls (binit 2 2 1 1) [BRead 1 5, BRead 1 7, Tick 10, BRelse 1, Tick 11, BRelse 0]"

definition recheck_unused :: bstate where
  "recheck_unused = (acquire_bucket 0 past_one)\<lparr>glock := True\<rparr>"

subsection \<open>Sequences of allocator calls\<close>

text \<open>
  Callers of the allocator: a sequence of \<open>kalloc\<close> and \<open>kfree\<close> calls, each on some core,
  executed one after the other. Beside the allocator state the run keeps the list of the
  pages handed out and not yet given back (the outstanding allocations). A run stops with
  \<open>None\<close> when a call panics or does not return. A call is \<open>legal\<close> when its core exists and,
  for \<open>kfree\<close>, when the page is one the caller holds.
\<close>

datatype kop = Alloc nat | Free nat addr

fun kstep :: "layout \<Rightarrow> kop \<Rightarrow> kstate \<times> addr list \<Rightarrow> (kstate \<times> addr list) option" where
  "kstep L (Alloc cpu) (s, out) =
     (case kalloc s cpu of
        Some (Inr (r, s')) \<Rightarrow> Some (s', if r = 0 then out else r # out)
      | _ \<Rightarrow> None)"
| "kstep L (Free cpu pa) (s, out) =
     (case kfree L cpu s pa of
        Inr s' \<Rightarrow> Some (s', remove1 pa out)
      | Inl _ \<Rightarrow> None)"

fun krun :: "layout \<Rightarrow> kop list \<Rightarrow> kstate \<times> addr list \<Rightarrow> (kstate \<times> addr list) option" where
  "krun L [] c = Some c"
| "krun L (x # xs) c = (case kstep L x c of None \<Rightarrow> None | Some c' \<Rightarrow> krun L xs c')"

fun legal :: "kop \<Rightarrow> kstate \<times> addr list \<Rightarrow> bool" where
  "legal (Alloc cpu) (s, out) = (cpu < length (kmem s))"
| "legal (Free cpu pa) (s, out) = (cpu < length (kmem s) \<and> pa \<in> set out)"

fun legal_run :: "layout \<Rightarrow> kop list \<Rightarrow> kstate \<times> addr list \<Rightarrow> bool" where
  "legal_run L [] c = True"
| "legal_run L (x # xs) c =
     (legal x c \<and> (case kstep L x c of None \<Rightarrow> True | Some c' \<Rightarrow> legal_run L xs c'))"

text \<open>
  \<open>sys_ok\<close>: the pools are consistent, and the outstanding pages are managed pages, each
  held once and none of them in a pool.
\<close>

definition sys_ok :: "layout \<Rightarrow> kstate \<Rightarrow> addr list list \<Rightarrow> addr list \<Rightarrow> bool" where
  "sys_ok L s pss out \<longleftrightarrow>
     pools_ok L s pss {} \<and> distinct out \<and> (\<forall>p\<in>set out. managed L p) \<and>
     (\<forall>i<length pss. set (pss ! i) \<inter> set out = {})"

text \<open>
  The state \<open>kinit\<close> leaves before \<open>freerange\<close> seeds the pools: \<open>n\<close> pools with free locks,
  empty lists and zero counts. \<open>freerange\<close> then calls \<open>kfree\<close> on every page of the range.
\<close>

definition boot :: "nat \<Rightarrow> kstate" where
  "boot n = \<lparr>mem = (\<lambda>_. 0), kmem = replicate n \<lparr>lock = False, freelist = 0, freelen = 0\<rparr>\<rparr>"

text \<open>A machine with two cores and ten pages of memory above the kernel, all freed on core 0.\<close>

definition L10 :: layout where
  "L10 = \<lparr>kend = 0x87FF6000, PHYSTOP = 0x88000000\<rparr>"

definition pages10 :: "addr list" where
  "pages10 = [0x87FF6000, 0x87FF7000, 0x87FF8000, 0x87FF9000, 0x87FFA000,
              0x87FFB000, 0x87FFC000, 0x87FFD000, 0x87FFE000, 0x87FFF000]"

definition scenarioA :: kstate where
  "scenarioA =
     (case krun L10 (map (Free 0) pages10) (boot 2, pages10) of
        Some (s, _) \<Rightarrow> s
      | None \<Rightarrow> boot 2)"

text \<open>The free counts of all pools after a call of \<open>kalloc\<close>, and the page it returned.\<close>

definition counts_after :: "(fault + addr \<times> kstate) option \<Rightarrow> int list" where
  "counts_after res = (case res of Some (Inr (r, s')) \<Rightarrow> map freelen (kmem s') | _ \<Rightarrow> [])"

definition page_of :: "(fault + addr \<times> kstate) option \<Rightarrow> addr" where
  "page_of res = (case res of Some (Inr (r, s')) \<Rightarrow> r | _ \<Rightarrow> 0)"

section \<open>Lemmas about memory and the page allocator\<close>

lemma bit_index_cases:
  assumes "(n::nat) < 64"
  obtains m where "m < 8" and "n = m \<or> n = 8 + m \<or> n = 16 + m \<or> n = 24 + m \<or> n = 32 + m
     \<or> n = 40 + m \<or> n = 48 + m \<or> n = 56 + m"
proof -
  define q where "q = n div 8"
  define m where "m = n mod 8"
  have n: "n = 8 * q + m" by (simp add: q_def m_def)
  have m: "m < 8" by (simp add: m_def)
  have "q < 8" using assms by (simp add: q_def)
  then have "q = 0 \<or> q = 1 \<or> q = 2 \<or> q = 3 \<or> q = 4 \<or> q = 5 \<or> q = 6 \<or> q = 7"
    by linarith
  then have "n = m \<or> n = 8 + m \<or> n = 16 + m \<or> n = 24 + m \<or> n = 32 + m
     \<or> n = 40 + m \<or> n = 48 + m \<or> n = 56 + m"
    using n by (elim disjE) simp_all
  with m show thesis by (rule that)
qed

lemma le64_bytes:
  "le64 (byte_of v 0) (byte_of v (Suc 0)) (byte_of v 2) (byte_of v 3) (byte_of v 4) (byte_of v 5)
     (byte_of v 6) (byte_of v 7) = v"
proof (rule bit_word_eqI)
  fix n :: nat
  assume "n < LENGTH(64)"
  then have "n < 64" by simp
  then obtain m where m: "m < 8" and n: "n = m \<or> n = 8 + m \<or> n = 16 + m \<or> n = 24 + m \<or> n = 32 + m
     \<or> n = 40 + m \<or> n = 48 + m \<or> n = 56 + m"
    by (rule bit_index_cases)
  from n m show "bit (le64 (byte_of v 0) (byte_of v (Suc 0)) (byte_of v 2) (byte_of v 3) (byte_of v 4)
     (byte_of v 5) (byte_of v 6) (byte_of v 7)) n = bit v n"
    by (elim disjE) (simp_all add: le64_def byte_of_def bit_simps)
qed

lemma load64_store64_same: "load64 (store64 m a v) a = v"
  by (simp add: load64_def store64_def le64_bytes)

lemma nat_page_sep:
  fixes A B K :: nat
  assumes A: "A mod 4096 = 0" and B: "B mod 4096 = 0" and ne: "A \<noteq> B" and K: "K < 4096"
    and la: "A < 18446744073709551616" and lb: "B < 18446744073709551616"
  shows "B + K < 18446744073709551616"
    and "A \<le> B + K \<Longrightarrow> 4096 \<le> B + K - A"
    and "\<not> A \<le> B + K \<Longrightarrow> 4096 \<le> B + K + 18446744073709551616 - A"
proof -
  obtain i where i: "A = 4096 * i" using A by (auto elim: dvdE)
  obtain j where j: "B = 4096 * j" using B by (auto elim: dvdE)
  have ij: "i \<noteq> j" using ne i j by simp
  have i': "i + 1 \<le> 4503599627370496" using la i by simp
  have j': "j + 1 \<le> 4503599627370496" using lb j by simp
  show "B + K < 18446744073709551616" using j j' K by linarith
  show "4096 \<le> B + K - A" if "A \<le> B + K"
  proof -
    have "i \<le> j" using that i j K by simp
    then have "i + 1 \<le> j" using ij by simp
    then show ?thesis using i j by simp
  qed
  show "4096 \<le> B + K + 18446744073709551616 - A" if "\<not> A \<le> B + K"
    using i i' by linarith
qed

lemma page_sep:
  fixes a b k :: addr
  assumes a: "a mod 4096 = 0" and b: "b mod 4096 = 0" and ne: "a \<noteq> b" and k: "k < 4096"
  shows "\<not> (b + k - a < 4096)"
proof -
  have A: "unat a mod 4096 = 0" using a by (simp add: unat_mod word_unat_eq_iff)
  have B: "unat b mod 4096 = 0" using b by (simp add: unat_mod word_unat_eq_iff)
  have K: "unat k < 4096" using k by (simp add: word_less_nat_alt)
  have la: "unat a < 18446744073709551616" using unsigned_less [of a, where 'a = nat] by simp
  have lb: "unat b < 18446744073709551616" using unsigned_less [of b, where 'a = nat] by simp
  have ne': "unat a \<noteq> unat b" using ne by (simp add: word_unat_eq_iff)
  note S = nat_page_sep [OF A B ne' K la lb]
  have bk: "unat (b + k) = unat b + unat k"
    using S(1) unat_add_lem [of b k] by simp
  have "4096 \<le> unat (b + k - a)"
    using S(2,3) by (simp add: unat_sub_if' bk)
  then show ?thesis by (simp add: word_less_nat_alt)
qed


lemma word_lt8_lt4096: "(x::addr) < 8 \<Longrightarrow> x < 4096"
  by (simp add: word_less_nat_alt)

lemma page_sep':
  assumes "pgaligned a" "pgaligned b" "a \<noteq> b" "k < 4096"
  shows "\<not> (b + k - a < 4096)"
  using assms page_sep [of a b k] by (simp add: pgaligned_def PGSIZE_def del: mod_eq_0_iff_dvd)

lemma store64_other_byte:
  assumes "pgaligned a" "pgaligned b" "a \<noteq> b" "k < 4096"
  shows "store64 m a v (b + k) = m (b + k)"
  using page_sep' [OF assms] word_lt8_lt4096 [of "b + k - a"] by (auto simp: store64_def)

lemma memset_other_byte:
  assumes "pgaligned a" "pgaligned b" "a \<noteq> b" "k < 4096"
  shows "memset m a c PGSIZE (b + k) = m (b + k)"
  using page_sep' [OF assms] by (simp add: memset_def PGSIZE_def)

lemma load64_store64_other:
  assumes "pgaligned a" "pgaligned b" "a \<noteq> b"
  shows "load64 (store64 m a v) b = load64 m b"
  using store64_other_byte [OF assms, of 0 m v] store64_other_byte [OF assms, of _ m v]
  by (simp add: load64_def)

lemma load64_memset_other:
  assumes "pgaligned a" "pgaligned b" "a \<noteq> b"
  shows "load64 (memset m a c PGSIZE) b = load64 m b"
  using memset_other_byte [OF assms, of 0 m c] memset_other_byte [OF assms, of _ m c]
  by (simp add: load64_def)

lemma memset_in: "i < n \<Longrightarrow> memset m a c n (a + i) = c"
  by (simp add: memset_def)

lemma store64_same_high: "8 \<le> i \<Longrightarrow> store64 m a v (a + i) = m (a + i)"
  by (auto simp: store64_def)


lemma length_acquire [simp]: "length (acquire i ps) = length ps"
  by (simp add: acquire_def)

lemma length_release [simp]: "length (release i ps) = length ps"
  by (simp add: release_def)

lemma nth_acquire:
  "j < length ps \<Longrightarrow> acquire i ps ! j = (if j = i then (ps ! i)\<lparr>lock := True\<rparr> else ps ! j)"
  by (simp add: acquire_def nth_list_update)

lemma nth_release:
  "j < length ps \<Longrightarrow> release i ps ! j = (if j = i then (ps ! i)\<lparr>lock := False\<rparr> else ps ! j)"
  by (simp add: release_def nth_list_update)

lemma release_acquire: "\<not> lock (ps ! i) \<Longrightarrow> release i (acquire i ps) = ps"
  by (rule nth_equalityI) (auto simp: nth_release nth_acquire)

lemma release_acquire_other:
  "d \<noteq> k \<Longrightarrow> \<not> lock (ps ! d) \<Longrightarrow> release d (acquire k (acquire d ps)) = acquire k ps"
  by (rule nth_equalityI) (auto simp: nth_release nth_acquire)

lemma scan_inv_step:
  assumes inv: "scan_inv cid ps k st" and k: "k < length ps"
    and free: "\<forall>i<length ps. i \<noteq> cid \<longrightarrow> \<not> lock (ps ! i)"
  shows "scan_inv cid ps (Suc k) (scan_step cid st k)"
proof -
  obtain ps' mi ml where st: "st = (ps', mi, ml)" by (cases st)
  show ?thesis
  proof (cases "k = cid")
    case True
    with inv st show ?thesis
      by (auto simp: scan_inv_def scan_step_def less_Suc_eq)
  next
    case False
    from inv st consider
      (none) "mi = - 1" "ml = 0" "ps' = ps" "\<forall>i<k. i \<noteq> cid \<longrightarrow> freelen (ps ! i) \<le> 0"
      | (some) d where "d < k" "d \<noteq> cid" "mi = int d" "ml = freelen (ps ! d)" "0 < ml"
          "ps' = acquire d ps" "\<forall>i<k. i \<noteq> cid \<longrightarrow> freelen (ps ! i) \<le> ml"
          "\<forall>i<d. i \<noteq> cid \<longrightarrow> freelen (ps ! i) < ml"
      by (auto simp: scan_inv_def)
    then show ?thesis
    proof cases
      case none
      have lk: "\<not> lock (ps ! k)" using free k False by simp
      show ?thesis
      proof (cases "0 < freelen (ps ! k)")
        case True
        then have "scan_step cid st k = (acquire k ps, int k, freelen (ps ! k))"
          using st none False k by (simp add: scan_step_def Let_def nth_acquire)
        moreover have "\<forall>i<k. i \<noteq> cid \<longrightarrow> freelen (ps ! i) < freelen (ps ! k)"
          using none(4) True by fastforce
        ultimately show ?thesis using True False
          by (auto simp: scan_inv_def less_Suc_eq intro!: exI [of _ k] dest: order.strict_implies_order)
      next
        case nonpos: False
        then have "scan_step cid st k = (ps, - 1, 0)"
          using st none False k lk by (simp add: scan_step_def Let_def nth_acquire release_acquire)
        then show ?thesis using none nonpos by (auto simp: scan_inv_def less_Suc_eq)
      qed
    next
      case some
      have ld: "\<not> lock (ps ! d)" using free k some(1,2) by simp
      have lk: "\<not> lock (ps ! k)" using free k False by simp
      have dk: "d \<noteq> k" using some(1) by simp
      have fk: "freelen (acquire k (acquire d ps) ! k) = freelen (ps ! k)"
        using k dk by (simp add: nth_acquire)
      show ?thesis
      proof (cases "ml < freelen (ps ! k)")
        case True
        then have "scan_step cid st k = (acquire k ps, int k, freelen (ps ! k))"
          using st some False k dk ld fk by (simp add: scan_step_def Let_def release_acquire_other)
        moreover have "\<forall>i<k. i \<noteq> cid \<longrightarrow> freelen (ps ! i) < freelen (ps ! k)"
          using some(7) True by fastforce
        moreover have "0 < freelen (ps ! k)" using some(5) True by simp
        ultimately show ?thesis using False
          by (auto simp: scan_inv_def less_Suc_eq intro!: exI [of _ k] dest: order.strict_implies_order)
      next
        case le: False
        have "release k (acquire k (acquire d ps)) = acquire d ps"
          using dk lk k by (simp add: release_acquire nth_acquire)
        then have "scan_step cid st k = (acquire d ps, int d, ml)"
          using st some False le fk by (simp add: scan_step_def Let_def)
        then show ?thesis using some le
          by (auto simp: scan_inv_def less_Suc_eq intro!: exI [of _ d])
      qed
    qed
  qed
qed

lemma scan_inv_upto:
  assumes free: "\<forall>i<length ps. i \<noteq> cid \<longrightarrow> \<not> lock (ps ! i)"
  shows "k \<le> length ps \<Longrightarrow> scan_inv cid ps k (foldl (scan_step cid) (ps, - 1, 0) [0..<k])"
proof (induction k)
  case 0
  show ?case by (simp add: scan_inv_def)
next
  case (Suc k)
  then show ?case using scan_inv_step [OF _ _ free, where k = k] by simp
qed

lemma scan_inv_scan:
  "\<forall>i<length ps. i \<noteq> cid \<longrightarrow> \<not> lock (ps ! i) \<Longrightarrow> scan_inv cid ps (length ps) (scan cid ps)"
  unfolding scan_def by (rule scan_inv_upto) simp_all

lemma midwalk_islist:
  "islist m fp fs \<Longrightarrow> islist m r rs \<Longrightarrow> length fs \<le> length rs \<Longrightarrow> rs \<noteq> [] \<Longrightarrow>
   midwalk m fp r = Some (rs ! (length fs div 2))"
proof (induction fs arbitrary: fp r rs rule: induct_list012)
  case 1
  then have "fp = 0" "r = hd rs" by (cases rs; simp)+
  then show ?case using 1 by (subst midwalk.simps) (simp add: hd_conv_nth)
next
  case (2 x)
  then have "load64 m fp = 0" "r = hd rs" by (cases rs; simp)+
  then show ?case using 2 by (subst midwalk.simps) (simp add: hd_conv_nth)
next
  case (3 x y zs)
  then obtain a rs' where rs: "rs = a # rs'" by (cases rs) auto
  with 3 have rs': "rs' \<noteq> []" by auto
  from 3(3) have fp: "fp = x" "x \<noteq> 0" "load64 m x = y" "y \<noteq> 0" "islist m (load64 m y) zs" by auto
  from 3(4) rs have r: "r = a" "islist m (load64 m a) rs'" by auto
  have "midwalk m fp r = midwalk m (load64 m y) (load64 m a)"
    using fp r by (subst midwalk.simps) simp
  also have "\<dots> = Some (rs' ! (length zs div 2))"
    using 3(1) [OF fp(5) r(2) _ rs'] 3(5) rs by simp
  finally show ?case using rs by simp
qed

lemma islist_null: "islist m 0 xs = (xs = [])"
  by (cases xs) simp_all

lemma islist_nonnull: "islist m p xs \<Longrightarrow> p \<noteq> 0 \<Longrightarrow> xs \<noteq> [] \<and> hd xs = p"
  by (cases xs) simp_all

lemma islist_head_zero: "islist m p xs \<Longrightarrow> (p = 0) = (xs = [])"
  by (cases xs) simp_all

lemma islist_frame_store:
  "pgaligned a \<Longrightarrow> \<forall>x\<in>set xs. pgaligned x \<Longrightarrow> a \<notin> set xs \<Longrightarrow>
   islist (store64 m a v) p xs = islist m p xs"
  by (induction xs arbitrary: p) (auto simp: load64_store64_other)

lemma islist_frame_memset:
  "pgaligned a \<Longrightarrow> \<forall>x\<in>set xs. pgaligned x \<Longrightarrow> a \<notin> set xs \<Longrightarrow>
   islist (memset m a c PGSIZE) p xs = islist m p xs"
  by (induction xs arbitrary: p) (auto simp: load64_memset_other)

lemma islist_cut:
  "islist m p (xs @ y # ys) \<Longrightarrow> distinct (xs @ y # ys) \<Longrightarrow>
   \<forall>x\<in>set (xs @ y # ys). pgaligned x \<Longrightarrow>
   islist (store64 m y 0) p (xs @ [y]) \<and> islist (store64 m y 0) (load64 m y) ys"
proof (induction xs arbitrary: p)
  case Nil
  then show ?case by (auto simp: load64_store64_same islist_frame_store)
next
  case (Cons x xs)
  then have "load64 (store64 m y 0) x = load64 m x"
    by (intro load64_store64_other) auto
  with Cons show ?case by auto
qed

lemma reschedule_none:
  assumes ok: "pools_ok L s pss {cid}" and cid: "cid < length pss"
    and empty: "\<forall>i<length pss. pss ! i = []"
  shows "reschedule s cid = Some (Inr (0, s))"
proof -
  have len: "length (kmem s) = length pss" using ok by (simp add: pools_ok_def)
  have free: "\<forall>i<length (kmem s). i \<noteq> cid \<longrightarrow> \<not> lock (kmem s ! i)"
    using ok by (simp add: pools_ok_def)
  have fl: "\<forall>i<length (kmem s). freelen (kmem s ! i) = 0"
    using ok empty by (simp add: pools_ok_def)
  have "scan_inv cid (kmem s) (length (kmem s)) (scan cid (kmem s))"
    using free by (rule scan_inv_scan)
  then have sc: "scan cid (kmem s) = (kmem s, - 1, 0)"
    using fl by (cases "scan cid (kmem s)") (auto simp: scan_inv_def)
  have h: "holding cid (kmem s)" using ok cid by (simp add: pools_ok_def holding_def)
  have z: "freelist (kmem s ! cid) = 0"
    using ok cid empty by (simp add: pools_ok_def)
  show ?thesis using h z sc by (simp add: reschedule_def)
qed

lemma scan_donor:
  assumes ok: "pools_ok L s pss {cid}" and cid: "cid < length pss"
    and some: "\<exists>i<length pss. i \<noteq> cid \<and> pss ! i \<noteq> []"
  shows "\<exists>d<length pss. d \<noteq> cid \<and> pss ! d \<noteq> [] \<and>
           scan cid (kmem s) = (acquire d (kmem s), int d, freelen (kmem s ! d)) \<and>
           (\<forall>i<length pss. i \<noteq> cid \<longrightarrow> length (pss ! i) \<le> length (pss ! d)) \<and>
           (\<forall>i<d. i \<noteq> cid \<longrightarrow> length (pss ! i) < length (pss ! d))"
proof -
  have len: "length (kmem s) = length pss" using ok by (simp add: pools_ok_def)
  have free: "\<forall>i<length (kmem s). i \<noteq> cid \<longrightarrow> \<not> lock (kmem s ! i)"
    using ok by (simp add: pools_ok_def)
  have fl: "\<forall>i<length pss. freelen (kmem s ! i) = int (length (pss ! i))"
    using ok by (simp add: pools_ok_def)
  obtain ps' mi ml where sc: "scan cid (kmem s) = (ps', mi, ml)" by (cases "scan cid (kmem s)")
  have inv: "scan_inv cid (kmem s) (length pss) (ps', mi, ml)"
    using scan_inv_scan [OF free] sc len by simp
  from some obtain i where i: "i < length pss" "i \<noteq> cid" "pss ! i \<noteq> []" by auto
  then have "0 < freelen (kmem s ! i)" using fl by simp
  with inv i obtain d where d: "d < length pss" "d \<noteq> cid" "mi = int d" "ml = freelen (kmem s ! d)"
      "0 < ml" "ps' = acquire d (kmem s)" "\<forall>i<length pss. i \<noteq> cid \<longrightarrow> freelen (kmem s ! i) \<le> ml"
      "\<forall>i<d. i \<noteq> cid \<longrightarrow> freelen (kmem s ! i) < ml"
    by (auto simp: scan_inv_def)
  have "pss ! d \<noteq> []" using d(1,4,5) fl by auto
  moreover have "\<forall>i<length pss. i \<noteq> cid \<longrightarrow> length (pss ! i) \<le> length (pss ! d)"
    using d(1,4,7) fl by auto
  moreover have "\<forall>i<d. i \<noteq> cid \<longrightarrow> length (pss ! i) < length (pss ! d)"
    using d(1,4,8) fl by auto
  ultimately show ?thesis using d sc by auto
qed

lemma reschedule_single_eq:
  assumes h: "lock (kmem s ! cid)" and z: "freelist (kmem s ! cid) = 0"
    and sc: "scan cid (kmem s) = (acquire d (kmem s), int d, ml)"
    and d: "d < length (kmem s)" and cid: "cid < length (kmem s)" and ne: "d \<noteq> cid"
    and r0: "freelist (kmem s ! d) = r0" "r0 \<noteq> 0"
    and mw: "midwalk (mem s) r0 r0 = Some r0"
  shows "reschedule s cid =
    Some (Inr (r0, s\<lparr>kmem := (kmem s)
      [cid := (kmem s ! cid)\<lparr>freelist := 0, freelen := 0\<rparr>,
       d := (kmem s ! d)\<lparr>lock := False, freelist := 0, freelen := 0\<rparr>]\<rparr>))"
proof -
  have "release d ((acquire d (kmem s))
          [d := (acquire d (kmem s) ! d)\<lparr>freelist := 0, freelen := 0\<rparr>,
           cid := ((acquire d (kmem s))[d := (acquire d (kmem s) ! d)\<lparr>freelist := 0, freelen := 0\<rparr>] ! cid)
                    \<lparr>freelist := 0, freelen := 0\<rparr>])
        = (kmem s)[cid := (kmem s ! cid)\<lparr>freelist := 0, freelen := 0\<rparr>,
                   d := (kmem s ! d)\<lparr>lock := False, freelist := 0, freelen := 0\<rparr>]"
    using d cid ne
    by (intro nth_equalityI) (auto simp: acquire_def release_def nth_list_update)
  then show ?thesis
    using h z sc d cid ne r0 mw
    by (simp add: reschedule_def Let_def holding_def nth_acquire)
qed

lemma reschedule_split_eq:
  assumes h: "lock (kmem s ! cid)" and z: "freelist (kmem s ! cid) = 0"
    and sc: "scan cid (kmem s) = (acquire d (kmem s), int d, ml)"
    and d: "d < length (kmem s)" and cid: "cid < length (kmem s)" and ne: "d \<noteq> cid"
    and r0: "freelist (kmem s ! d) = r0" "r0 \<noteq> 0"
    and mw: "midwalk (mem s) r0 r0 = Some r" and rne: "r \<noteq> r0"
    and N: "freelen (kmem s ! d) = N"
  shows "reschedule s cid =
    Some (Inr (r0, \<lparr>mem = store64 (mem s) r 0, kmem = (kmem s)
      [cid := (kmem s ! cid)\<lparr>freelist := load64 (store64 (mem s) r 0) r0, freelen := N div 2\<rparr>,
       d := (kmem s ! d)\<lparr>lock := False, freelist := load64 (mem s) r,
              freelen := (if N mod 2 = 0 then N div 2 - 1 else N div 2)\<rparr>]\<rparr>))"
proof -
  let ?K = "kmem s"
  let ?ps = "acquire d ?K"
  let ?ps1 = "?ps[cid := (?ps ! cid)\<lparr>freelist := freelist (?ps ! d)\<rparr>]"
  let ?ps2 = "?ps1[d := (?ps1 ! d)\<lparr>freelist := load64 (mem s) r\<rparr>]"
  let ?m1 = "store64 (mem s) r 0"
  let ?ps3 = "(if freelen (?ps2 ! d) mod 2 = 0 then
                 let ps' = ?ps2[d := (?ps2 ! d)\<lparr>freelen := freelen (?ps2 ! d) div 2 - 1\<rparr>]
                 in ps'[cid := (ps' ! cid)\<lparr>freelen := freelen (ps' ! d) + 1\<rparr>]
               else
                 let ps' = ?ps2[d := (?ps2 ! d)\<lparr>freelen := freelen (?ps2 ! d) div 2\<rparr>]
                 in ps'[cid := (ps' ! cid)\<lparr>freelen := freelen (ps' ! d)\<rparr>])"
  let ?ps4 = "release d ?ps3"
  let ?ps5 = "?ps4[cid := (?ps4 ! cid)\<lparr>freelist := load64 ?m1 (freelist (?ps4 ! cid))\<rparr>]"
  have f4: "freelist (?ps4 ! cid) = r0"
    using d cid ne r0 by (simp add: acquire_def release_def nth_list_update Let_def)
  have E: "?ps4[cid := (?ps4 ! cid)\<lparr>freelist := load64 ?m1 r0\<rparr>] = ?K
      [cid := (?K ! cid)\<lparr>freelist := load64 ?m1 r0, freelen := N div 2\<rparr>,
       d := (?K ! d)\<lparr>lock := False, freelist := load64 (mem s) r,
              freelen := (if N mod 2 = 0 then N div 2 - 1 else N div 2)\<rparr>]"
    using d cid ne r0 N
    by (intro nth_equalityI) (auto simp: acquire_def release_def nth_list_update Let_def)
  have A: "reschedule s cid = Some (Inr (freelist (?ps4 ! cid), \<lparr>mem = ?m1, kmem = ?ps5\<rparr>))"
    using h z sc d cid ne r0 mw rne
    by (simp add: reschedule_def Let_def holding_def nth_acquire)
  from A show ?thesis unfolding f4 E .
qed

lemma set_tl_subset: "set (tl xs) \<subseteq> set xs"
  by (cases xs) auto

lemma front_back_disjoint:
  "distinct qs \<Longrightarrow> set (tl (take (Suc k) qs)) \<inter> set (drop (Suc k) qs) = {}"
  using set_take_disj_set_drop_if_distinct [of qs "Suc k" "Suc k"] set_tl_subset [of "take (Suc k) qs"]
  by auto

lemma front_subset: "set (tl (take (Suc k) qs)) \<subseteq> set qs"
  using set_tl_subset [of "take (Suc k) qs"] set_take_subset [of "Suc k" qs] by auto

lemma half_lengths:
  fixes n :: nat
  assumes "0 < n"
  shows "int (n - Suc (n div 2)) = (if int n mod 2 = 0 then int n div 2 - 1 else int n div 2)"
proof (cases "even n")
  case True
  then obtain q where "n = 2 * q" by (elim evenE)
  with assms show ?thesis by simp
next
  case False
  then obtain q where "n = 2 * q + 1" by (elim oddE)
  then show ?thesis by simp
qed

lemma pools_ok_len: "pools_ok L s pss H \<Longrightarrow> length (kmem s) = length pss"
  by (simp add: pools_ok_def)

lemma pools_ok_nth:
  "pools_ok L s pss H \<Longrightarrow> i < length pss \<Longrightarrow>
   islist (mem s) (freelist (kmem s ! i)) (pss ! i) \<and> freelen (kmem s ! i) = int (length (pss ! i)) \<and>
   (lock (kmem s ! i) \<longleftrightarrow> i \<in> H) \<and> distinct (pss ! i) \<and> (\<forall>p\<in>set (pss ! i). managed L p)"
  by (simp add: pools_ok_def)

lemma pools_ok_disj:
  "pools_ok L s pss H \<Longrightarrow> i < length pss \<Longrightarrow> j < length pss \<Longrightarrow> i \<noteq> j \<Longrightarrow>
   set (pss ! i) \<inter> set (pss ! j) = {}"
  by (simp add: pools_ok_def)

lemma pools_okI:
  assumes "length pss = length (kmem s)"
    and "\<And>i. i < length pss \<Longrightarrow> islist (mem s) (freelist (kmem s ! i)) (pss ! i)"
    and "\<And>i. i < length pss \<Longrightarrow> freelen (kmem s ! i) = int (length (pss ! i))"
    and "\<And>i. i < length pss \<Longrightarrow> lock (kmem s ! i) \<longleftrightarrow> i \<in> H"
    and "\<And>i. i < length pss \<Longrightarrow> distinct (pss ! i)"
    and "\<And>i p. i < length pss \<Longrightarrow> p \<in> set (pss ! i) \<Longrightarrow> managed L p"
    and "\<And>i j. i < length pss \<Longrightarrow> j < length pss \<Longrightarrow> i \<noteq> j \<Longrightarrow> set (pss ! i) \<inter> set (pss ! j) = {}"
  shows "pools_ok L s pss H"
  using assms unfolding pools_ok_def by blast

lemma managed_aligned: "managed L p \<Longrightarrow> pgaligned p"
  by (simp add: managed_def)

lemma reschedule_some:
  assumes ok: "pools_ok L s pss {cid}" and cid: "cid < length pss" and empty: "pss ! cid = []"
    and d: "d < length pss" and ne: "d \<noteq> cid" and qs: "pss ! d \<noteq> []"
    and sc: "scan cid (kmem s) = (acquire d (kmem s), int d, ml)"
  shows "\<exists>s'. reschedule s cid = Some (Inr (hd (pss ! d), s')) \<and>
           pools_ok L s' (pss[cid := tl (take (Suc (length (pss ! d) div 2)) (pss ! d)),
                              d := drop (Suc (length (pss ! d) div 2)) (pss ! d)]) {cid}"
proof -
  define qs where "qs = pss ! d"
  define n where "n = length qs"
  define k where "k = n div 2"
  define r0 where "r0 = hd qs"
  define r where "r = qs ! k"
  let ?K = "kmem s"
  let ?m = "mem s"
  note len = pools_ok_len [OF ok]
  note D = pools_ok_nth [OF ok d, folded qs_def]
  note C = pools_ok_nth [OF ok cid, unfolded empty]
  have qne: "qs \<noteq> []" using qs by (simp add: qs_def)
  then have n0: "0 < n" by (simp add: n_def)
  have kn: "k < n" using n0 by (simp add: k_def)
  have h: "lock (?K ! cid)" using C by simp
  have z: "freelist (?K ! cid) = 0" using C by simp
  have fr0: "freelist (?K ! d) = r0" "r0 \<noteq> 0"
    using D qne by (cases qs; simp add: r0_def)+
  have il: "islist ?m r0 qs" using D fr0 by simp
  have mw: "midwalk ?m r0 r0 = Some r"
    using midwalk_islist [OF il il _ qne] by (simp add: r_def k_def n_def)
  have dq: "distinct qs" using D by simp
  have mq: "\<forall>p\<in>set qs. managed L p" using D by simp
  have aq: "\<forall>p\<in>set qs. pgaligned p" using mq by (auto simp: managed_aligned)
  have N: "freelen (?K ! d) = int n" using D by (simp add: n_def)
  have dK: "d < length ?K" and cK: "cid < length ?K" using d cid len by simp_all
  show ?thesis
  proof (cases "k = 0")
    case True
    then have n1: "n = 1" using n0 by (simp add: k_def)
    then have q1: "qs = [r0]" using qne by (cases qs) (simp_all add: n_def r0_def)
    have rr: "r = r0" using True q1 by (simp add: r_def)
    let ?s' = "s\<lparr>kmem := ?K[cid := (?K ! cid)\<lparr>freelist := 0, freelen := 0\<rparr>,
                 d := (?K ! d)\<lparr>lock := False, freelist := 0, freelen := 0\<rparr>]\<rparr>"
    have eq: "reschedule s cid = Some (Inr (r0, ?s'))"
      using reschedule_single_eq [OF h z sc dK cK ne fr0] mw rr by simp
    have lists: "tl (take (Suc k) qs) = []" "drop (Suc k) qs = []"
      using q1 by simp_all
    have "pools_ok L ?s' (pss[cid := [], d := []]) {cid}"
    proof (rule pools_okI, goal_cases)
      case 1
      show ?case using len by simp
    next
      case (2 i)
      then show ?case using pools_ok_nth [OF ok, of i] ne len
        by (cases "i = d"; cases "i = cid") (simp_all add: nth_list_update)
    next
      case (3 i)
      then show ?case using pools_ok_nth [OF ok, of i] ne len
        by (cases "i = d"; cases "i = cid") (simp_all add: nth_list_update)
    next
      case (4 i)
      then show ?case using pools_ok_nth [OF ok, of i] ne len h
        by (cases "i = d"; cases "i = cid") (simp_all add: nth_list_update)
    next
      case (5 i)
      then show ?case using pools_ok_nth [OF ok, of i] ne
        by (cases "i = d"; cases "i = cid") (simp_all add: nth_list_update)
    next
      case (6 i p)
      then show ?case using pools_ok_nth [OF ok, of i] ne
        by (cases "i = d"; cases "i = cid") (simp_all add: nth_list_update)
    next
      case (7 i j)
      then show ?case using pools_ok_disj [OF ok, of i j] ne
        by (cases "i = d"; cases "i = cid"; cases "j = d"; cases "j = cid")
           (simp_all add: nth_list_update)
    qed
    then show ?thesis using eq lists by (simp add: qs_def [symmetric] n_def [symmetric] k_def [symmetric] r0_def)
  next
    case False
    then have k1: "0 < k" by simp
    have rne: "r \<noteq> r0"
      using dq kn k1 qne by (simp add: r_def r0_def hd_conv_nth nth_eq_iff_index_eq n_def)
    let ?m1 = "store64 ?m r 0"
    let ?A = "tl (take (Suc k) qs)"
    let ?B = "drop (Suc k) qs"
    let ?s' = "\<lparr>mem = ?m1, kmem = ?K
      [cid := (?K ! cid)\<lparr>freelist := load64 ?m1 r0, freelen := int n div 2\<rparr>,
       d := (?K ! d)\<lparr>lock := False, freelist := load64 ?m r,
              freelen := (if int n mod 2 = 0 then int n div 2 - 1 else int n div 2)\<rparr>]\<rparr>"
    have eq: "reschedule s cid = Some (Inr (r0, ?s'))"
      by (rule reschedule_split_eq [OF h z sc dK cK ne fr0 mw rne N])
    have split: "qs = take k qs @ r # ?B"
      using kn by (simp add: r_def n_def id_take_nth_drop [symmetric])
    have cut: "islist ?m1 r0 (take k qs @ [r]) \<and> islist ?m1 (load64 ?m r) ?B"
      using il dq aq by (subst (asm) (1 2 3) split) (rule islist_cut)
    have tk: "take (Suc k) qs = take k qs @ [r]"
      using kn by (simp add: take_Suc_conv_app_nth r_def n_def)
    have hdtk: "take (Suc k) qs = r0 # ?A"
      using qne by (cases qs) (simp_all add: r0_def)
    have "islist ?m1 r0 (r0 # ?A)" using cut tk hdtk by simp
    then have ilA: "islist ?m1 (load64 ?m1 r0) ?A" by simp
    have ilB: "islist ?m1 (load64 ?m r) ?B" using cut by simp
    have lenA: "length ?A = k" using kn by (simp add: n_def)
    have lenB: "int (length ?B) = (if int n mod 2 = 0 then int n div 2 - 1 else int n div 2)"
      using half_lengths [OF n0] by (simp add: k_def n_def [symmetric])
    have subA: "set ?A \<subseteq> set qs" by (rule front_subset)
    have subB: "set ?B \<subseteq> set qs" by (rule set_drop_subset)
    have disAB: "set ?A \<inter> set ?B = {}" using dq by (rule front_back_disjoint)
    have rin: "r \<in> set qs" using kn by (simp add: r_def n_def)
    have ra: "pgaligned r" using aq rin by simp
    have "pools_ok L ?s' (pss[cid := ?A, d := ?B]) {cid}"
    proof (rule pools_okI, goal_cases)
      case 1
      show ?case using len by simp
    next
      case (2 i)
      show ?case
      proof (cases "i = d \<or> i = cid")
        case True
        then show ?thesis using ilA ilB ne d cid len by (auto simp: nth_list_update)
      next
        case other: False
        with 2 have "set (pss ! i) \<inter> set qs = {}"
          using pools_ok_disj [OF ok, of i d] d by (simp add: qs_def)
        then have "r \<notin> set (pss ! i)" using rin by auto
        moreover have "\<forall>x\<in>set (pss ! i). pgaligned x"
          using pools_ok_nth [OF ok, of i] 2 by (auto simp: managed_aligned)
        ultimately show ?thesis
          using other 2 pools_ok_nth [OF ok, of i] ra by (simp add: islist_frame_store)
      qed
    next
      case (3 i)
      then show ?case using pools_ok_nth [OF ok, of i] ne len lenA lenB
        by (cases "i = d"; cases "i = cid") (simp_all add: nth_list_update k_def zdiv_int)
    next
      case (4 i)
      then show ?case using pools_ok_nth [OF ok, of i] ne len h
        by (cases "i = d"; cases "i = cid") (simp_all add: nth_list_update)
    next
      case (5 i)
      then show ?case using pools_ok_nth [OF ok, of i] ne dq
        by (cases "i = d"; cases "i = cid") (simp_all add: nth_list_update distinct_tl)
    next
      case (6 i p)
      then show ?case using pools_ok_nth [OF ok, of i] ne subA subB mq
        by (cases "i = d"; cases "i = cid") (auto simp: nth_list_update)
    next
      case (7 i j)
      have "set (pss ! i) \<inter> set (pss ! j) = {}" using 7 pools_ok_disj [OF ok, of i j] by simp
      moreover have "set (pss ! i) \<inter> set qs = {}" if "i \<noteq> d"
        using 7 that pools_ok_disj [OF ok, of i d] d by (simp add: qs_def)
      moreover have "set qs \<inter> set (pss ! j) = {}" if "j \<noteq> d"
        using 7 that pools_ok_disj [OF ok, of d j] d by (simp add: qs_def)
      moreover have "(pss[cid := ?A, d := ?B]) ! i = (if i = d then ?B else if i = cid then ?A else pss ! i)"
        "(pss[cid := ?A, d := ?B]) ! j = (if j = d then ?B else if j = cid then ?A else pss ! j)"
        using 7 by (simp_all add: nth_list_update)
      ultimately show ?case using 7(3) ne subA subB disAB
        by (simp split: if_splits) blast+
    qed
    then show ?thesis using eq by (simp add: qs_def [symmetric] n_def [symmetric] k_def [symmetric] r0_def)
  qed
qed

lemma pools_ok_acquire:
  assumes ok: "pools_ok L s pss H" and i: "i < length pss"
  shows "pools_ok L (s\<lparr>kmem := acquire i (kmem s)\<rparr>) pss (insert i H)"
proof (rule pools_okI, goal_cases)
  case 1
  show ?case using pools_ok_len [OF ok] by simp
next
  case (7 a b)
  then show ?case using pools_ok_disj [OF ok] by simp
qed (use pools_ok_nth [OF ok] pools_ok_len [OF ok] i in \<open>auto simp: nth_acquire\<close>)

lemma pools_ok_release:
  assumes ok: "pools_ok L s pss H" and i: "i < length pss"
  shows "pools_ok L (s\<lparr>kmem := release i (kmem s)\<rparr>) pss (H - {i})"
proof (rule pools_okI, goal_cases)
  case 1
  show ?case using pools_ok_len [OF ok] by simp
next
  case (7 a b)
  then show ?case using pools_ok_disj [OF ok] by simp
qed (use pools_ok_nth [OF ok] pools_ok_len [OF ok] i in \<open>auto simp: nth_release\<close>)

lemma pools_ok_memset:
  assumes ok: "pools_ok L s pss H" and r: "pgaligned r"
    and out: "\<forall>i<length pss. r \<notin> set (pss ! i)"
  shows "pools_ok L (s\<lparr>mem := memset (mem s) r c PGSIZE\<rparr>) pss H"
proof (rule pools_okI, goal_cases)
  case 1
  show ?case using pools_ok_len [OF ok] by simp
next
  case (2 i)
  have "\<forall>x\<in>set (pss ! i). pgaligned x"
    using pools_ok_nth [OF ok 2] by (auto simp: managed_aligned)
  then show ?case using pools_ok_nth [OF ok 2] out 2 r by (simp add: islist_frame_memset)
next
  case (7 a b)
  then show ?case using pools_ok_disj [OF ok] by simp
qed (use pools_ok_nth [OF ok] in auto)

lemma kfree_eq:
  assumes "cpu < length (kmem s)" "pa mod PGSIZE = 0" "kend L \<le> pa" "pa < PHYSTOP L"
  shows "kfree L cpu s pa =
    Inr \<lparr>mem = store64 (memset (mem s) pa 1 PGSIZE) pa (freelist (kmem s ! cpu)),
         kmem = (kmem s)[cpu := (kmem s ! cpu)\<lparr>freelist := pa,
                                  freelen := freelen (kmem s ! cpu) + 1, lock := False\<rparr>]\<rparr>"
proof -
  have "release cpu ((acquire cpu (kmem s))
          [cpu := (acquire cpu (kmem s) ! cpu)\<lparr>freelist := pa\<rparr>,
           cpu := ((acquire cpu (kmem s))[cpu := (acquire cpu (kmem s) ! cpu)\<lparr>freelist := pa\<rparr>] ! cpu)
                    \<lparr>freelen := freelen ((acquire cpu (kmem s))
                        [cpu := (acquire cpu (kmem s) ! cpu)\<lparr>freelist := pa\<rparr>] ! cpu) + 1\<rparr>])
     = (kmem s)[cpu := (kmem s ! cpu)\<lparr>freelist := pa,
                                  freelen := freelen (kmem s ! cpu) + 1, lock := False\<rparr>]"
    using assms(1) by (simp add: acquire_def release_def)
  then show ?thesis using assms
    by (simp add: kfree_def Let_def nth_acquire not_less [symmetric] del: mod_eq_0_iff_dvd)
qed

lemma kalloc_local_eq:
  assumes "cpu < length (kmem s)" "freelist (kmem s ! cpu) = r" "r \<noteq> 0"
  shows "kalloc s cpu =
    Some (Inr (r, s\<lparr>kmem := (kmem s)[cpu := (kmem s ! cpu)\<lparr>freelist := load64 (mem s) r,
                                  freelen := freelen (kmem s ! cpu) - 1, lock := False\<rparr>],
                     mem := memset (mem s) r 5 PGSIZE\<rparr>))"
  using assms by (simp add: kalloc_def Let_def acquire_def release_def)

lemma kalloc_resched_eq:
  assumes "cpu < length (kmem s)" "freelist (kmem s ! cpu) = 0"
    and "reschedule (s\<lparr>kmem := acquire cpu (kmem s)\<rparr>) cpu = Some (Inr (r, s1))"
  shows "kalloc s cpu =
    Some (Inr (r, if r \<noteq> 0 then s1\<lparr>kmem := release cpu (kmem s1), mem := memset (mem s1) r 5 PGSIZE\<rparr>
                  else s1\<lparr>kmem := release cpu (kmem s1)\<rparr>))"
  using assms by (simp add: kalloc_def Let_def nth_acquire)

lemma kfree_ok:
  assumes ok: "pools_ok L s pss {}" and cpu: "cpu < length pss" and pa: "managed L pa"
    and new: "\<forall>i<length pss. pa \<notin> set (pss ! i)"
  shows "\<exists>s'. kfree L cpu s pa = Inr s' \<and> pools_ok L s' (pss[cpu := pa # pss ! cpu]) {}"
proof -
  let ?K = "kmem s"
  let ?m1 = "memset (mem s) pa 1 PGSIZE"
  let ?m2 = "store64 ?m1 pa (freelist (?K ! cpu))"
  let ?s' = "\<lparr>mem = ?m2, kmem = ?K[cpu := (?K ! cpu)\<lparr>freelist := pa,
                 freelen := freelen (?K ! cpu) + 1, lock := False\<rparr>]\<rparr>"
  note len = pools_ok_len [OF ok]
  have al: "pgaligned pa" using pa by (rule managed_aligned)
  have eq: "kfree L cpu s pa = Inr ?s'"
    using cpu len pa by (intro kfree_eq) (simp_all add: managed_def pgaligned_def)
  have keep: "islist ?m2 p (pss ! i) = islist (mem s) p (pss ! i)" if "i < length pss" for i p
  proof -
    have "\<forall>x\<in>set (pss ! i). pgaligned x"
      using pools_ok_nth [OF ok that] by (auto simp: managed_aligned)
    then show ?thesis using new that al by (simp add: islist_frame_store islist_frame_memset)
  qed
  have "pools_ok L ?s' (pss[cpu := pa # pss ! cpu]) {}"
  proof (rule pools_okI, goal_cases)
    case 1
    show ?case using len by simp
  next
    case (2 i)
    then show ?case using pools_ok_nth [OF ok, of i] keep [of i] pa cpu len
      by (cases "i = cpu") (simp_all add: load64_store64_same managed_def)
  next
    case (3 i)
    then show ?case using pools_ok_nth [OF ok, of i] len cpu by (cases "i = cpu") simp_all
  next
    case (4 i)
    then show ?case using pools_ok_nth [OF ok, of i] len cpu by (cases "i = cpu") simp_all
  next
    case (5 i)
    then show ?case using pools_ok_nth [OF ok, of i] new len cpu by (cases "i = cpu") simp_all
  next
    case (6 i p)
    then show ?case using pools_ok_nth [OF ok, of i] pa len cpu by (cases "i = cpu") auto
  next
    case (7 i j)
    then show ?case using pools_ok_disj [OF ok, of i j] new
      by (cases "i = cpu"; cases "j = cpu") (auto simp: nth_list_update)
  qed
  with eq show ?thesis by blast
qed

lemma kalloc_local:
  assumes ok: "pools_ok L s pss {}" and cpu: "cpu < length pss" and ps: "pss ! cpu = p # ps"
  shows "\<exists>s'. kalloc s cpu = Some (Inr (p, s')) \<and> pools_ok L s' (pss[cpu := ps]) {} \<and>
           mem s' = memset (mem s) p 5 PGSIZE"
proof -
  let ?K = "kmem s"
  let ?s1 = "s\<lparr>kmem := ?K[cpu := (?K ! cpu)\<lparr>freelist := load64 (mem s) p,
                 freelen := freelen (?K ! cpu) - 1, lock := False\<rparr>]\<rparr>"
  note len = pools_ok_len [OF ok]
  note C = pools_ok_nth [OF ok cpu, unfolded ps]
  have fl: "freelist (?K ! cpu) = p" "p \<noteq> 0" using C by auto
  have il: "islist (mem s) (load64 (mem s) p) ps" using C by auto
  have fc: "freelen (?K ! cpu) - 1 = int (length ps)" using C by auto
  have dc: "distinct ps" "p \<notin> set ps" "\<forall>x\<in>set ps. managed L x" "managed L p" using C by auto
  have eq: "kalloc s cpu = Some (Inr (p, ?s1\<lparr>mem := memset (mem s) p 5 PGSIZE\<rparr>))"
    using kalloc_local_eq [of cpu s p] cpu len fl by simp
  have ok1: "pools_ok L ?s1 (pss[cpu := ps]) {}"
  proof (rule pools_okI, goal_cases)
    case 1
    show ?case using len by simp
  next
    case (2 i)
    then show ?case using pools_ok_nth [OF ok, of i] il len cpu by (cases "i = cpu") simp_all
  next
    case (3 i)
    then show ?case using pools_ok_nth [OF ok, of i] fc len cpu by (cases "i = cpu") simp_all
  next
    case (4 i)
    then show ?case using pools_ok_nth [OF ok, of i] len cpu by (cases "i = cpu") simp_all
  next
    case (5 i)
    then show ?case using pools_ok_nth [OF ok, of i] C len cpu by (cases "i = cpu") simp_all
  next
    case (6 i q)
    then show ?case using pools_ok_nth [OF ok, of i] C len cpu by (cases "i = cpu") auto
  next
    case (7 i j)
    then show ?case using pools_ok_disj [OF ok, of i j] ps
      by (cases "i = cpu"; cases "j = cpu") (auto simp: nth_list_update)
  qed
  have out: "\<forall>i<length (pss[cpu := ps]). p \<notin> set (pss[cpu := ps] ! i)"
  proof (intro allI impI)
    fix i assume i: "i < length (pss[cpu := ps])"
    show "p \<notin> set (pss[cpu := ps] ! i)"
    proof (cases "i = cpu")
      case True
      then show ?thesis using dc cpu by simp
    next
      case False
      then show ?thesis using pools_ok_disj [OF ok, of cpu i] i cpu ps by auto
    qed
  qed
  have "pgaligned p" using dc by (auto simp: managed_aligned)
  from pools_ok_memset [OF ok1 this out, of 5] eq show ?thesis by simp
qed

lemma kalloc_empty:
  assumes ok: "pools_ok L s pss {}" and cpu: "cpu < length pss"
    and empty: "\<forall>i<length pss. pss ! i = []"
  shows "kalloc s cpu = Some (Inr (0, s))"
proof -
  note len = pools_ok_len [OF ok]
  have ok1: "pools_ok L (s\<lparr>kmem := acquire cpu (kmem s)\<rparr>) pss {cpu}"
    using pools_ok_acquire [OF ok cpu] by simp
  have r: "reschedule (s\<lparr>kmem := acquire cpu (kmem s)\<rparr>) cpu = Some (Inr (0, s\<lparr>kmem := acquire cpu (kmem s)\<rparr>))"
    by (rule reschedule_none [OF ok1 cpu empty])
  have z: "freelist (kmem s ! cpu) = 0" using pools_ok_nth [OF ok cpu] empty cpu by simp
  have l: "\<not> lock (kmem s ! cpu)" using pools_ok_nth [OF ok cpu] by simp
  show ?thesis using kalloc_resched_eq [OF _ z r] cpu len l by (simp add: release_acquire)
qed

lemma kalloc_steal:
  assumes ok: "pools_ok L s pss {}" and cpu: "cpu < length pss" and empty: "pss ! cpu = []"
    and some: "\<exists>i<length pss. pss ! i \<noteq> []"
  shows "\<exists>d s'. d < length pss \<and> d \<noteq> cpu \<and> pss ! d \<noteq> [] \<and>
           (\<forall>i<length pss. i \<noteq> cpu \<longrightarrow> length (pss ! i) \<le> length (pss ! d)) \<and>
           (\<forall>i<d. i \<noteq> cpu \<longrightarrow> length (pss ! i) < length (pss ! d)) \<and>
           kalloc s cpu = Some (Inr (hd (pss ! d), s')) \<and>
           pools_ok L s' (pss[cpu := tl (take (Suc (length (pss ! d) div 2)) (pss ! d)),
                              d := drop (Suc (length (pss ! d) div 2)) (pss ! d)]) {} \<and>
           (\<forall>i<4096. mem s' (hd (pss ! d) + i) = 5)"
proof -
  note len = pools_ok_len [OF ok]
  let ?s0 = "s\<lparr>kmem := acquire cpu (kmem s)\<rparr>"
  have ok0: "pools_ok L ?s0 pss {cpu}"
    using pools_ok_acquire [OF ok cpu] by simp
  have some': "\<exists>i<length pss. i \<noteq> cpu \<and> pss ! i \<noteq> []" using some empty by metis
  from scan_donor [OF ok0 cpu some'] obtain d where d: "d < length pss" "d \<noteq> cpu" "pss ! d \<noteq> []"
      "scan cpu (kmem ?s0) = (acquire d (kmem ?s0), int d, freelen (kmem ?s0 ! d))"
      "\<forall>i<length pss. i \<noteq> cpu \<longrightarrow> length (pss ! i) \<le> length (pss ! d)"
      "\<forall>i<d. i \<noteq> cpu \<longrightarrow> length (pss ! i) < length (pss ! d)"
    by blast
  define qs where "qs = pss ! d"
  define pss' where "pss' = pss[cpu := tl (take (Suc (length qs div 2)) qs), d := drop (Suc (length qs div 2)) qs]"
  from reschedule_some [OF ok0 cpu empty d(1,2,3,4)] obtain s1 where
    s1: "reschedule ?s0 cpu = Some (Inr (hd qs, s1))" "pools_ok L s1 pss' {cpu}"
    by (auto simp: qs_def pss'_def)
  note D = pools_ok_nth [OF ok d(1), folded qs_def]
  have qne: "qs \<noteq> []" using d(3) by (simp add: qs_def)
  have hq: "hd qs \<in> set qs" using qne by simp
  have hn: "hd qs \<noteq> 0" using D qne by (cases qs) simp_all
  have ha: "pgaligned (hd qs)" using D hq by (auto simp: managed_aligned)
  have z: "freelist (kmem s ! cpu) = 0" using pools_ok_nth [OF ok cpu] empty by simp
  let ?s2 = "s1\<lparr>kmem := release cpu (kmem s1)\<rparr>"
  have len': "length pss' = length pss" by (simp add: pss'_def)
  have ok2: "pools_ok L ?s2 pss' {}"
    using pools_ok_release [OF s1(2), of cpu] cpu len' by simp
  have eq: "kalloc s cpu = Some (Inr (hd qs, ?s2\<lparr>mem := memset (mem ?s2) (hd qs) 5 PGSIZE\<rparr>))"
    using kalloc_resched_eq [OF _ z s1(1)] cpu len hn by simp
  have out: "\<forall>i<length pss'. hd qs \<notin> set (pss' ! i)"
  proof (intro allI impI)
    fix i assume i: "i < length pss'"
    have nth': "pss' ! i = (if i = d then drop (Suc (length qs div 2)) qs
                 else if i = cpu then tl (take (Suc (length qs div 2)) qs) else pss ! i)"
      using i len' d(2) by (simp add: pss'_def nth_list_update)
    have a: "hd qs \<notin> set (tl (take (Suc (length qs div 2)) qs))"
      using D qne by (cases qs) (auto dest: in_set_takeD)
    have b: "hd qs \<notin> set (drop (Suc (length qs div 2)) qs)"
      using D qne by (cases qs) (auto dest: in_set_dropD)
    have c: "hd qs \<notin> set (pss ! i)" if "i \<noteq> d"
      using pools_ok_disj [OF ok, of d i] that i len' d(1) hq by (auto simp: qs_def)
    show "hd qs \<notin> set (pss' ! i)" using a b c by (simp add: nth')
  qed
  from pools_ok_memset [OF ok2 ha out, of 5]
  have ok3: "pools_ok L (?s2\<lparr>mem := memset (mem ?s2) (hd qs) 5 PGSIZE\<rparr>) pss' {}" by simp
  have fill: "\<forall>i<4096. mem (?s2\<lparr>mem := memset (mem ?s2) (hd qs) 5 PGSIZE\<rparr>) (hd qs + i) = 5"
    by (simp add: memset_in PGSIZE_def)
  show ?thesis
    using d(1,2,3,5,6) eq ok3 fill unfolding qs_def pss'_def by blast
qed

subsection \<open>Runs of allocator calls\<close>

lemma pools_ok_boot: "pools_ok L (boot n) (replicate n []) {}"
  by (simp add: pools_ok_def boot_def)

lemma krun_frees:
  "pools_ok L s pss {} \<Longrightarrow> cpu < length pss \<Longrightarrow> distinct pas \<Longrightarrow>
   \<forall>p\<in>set pas. managed L p \<and> (\<forall>i<length pss. p \<notin> set (pss ! i)) \<Longrightarrow>
   \<exists>s' out'. krun L (map (Free cpu) pas) (s, out) = Some (s', out') \<and>
     pools_ok L s' (pss[cpu := rev pas @ pss ! cpu]) {}"
proof (induction pas arbitrary: s pss out)
  case Nil
  then show ?case by simp
next
  case (Cons pa pas)
  from Cons.prems have pa: "managed L pa" "\<forall>i<length pss. pa \<notin> set (pss ! i)" by auto
  from kfree_ok [OF Cons.prems(1,2) pa] obtain s1 where
    s1: "kfree L cpu s pa = Inr s1" "pools_ok L s1 (pss[cpu := pa # pss ! cpu]) {}" by blast
  let ?pss1 = "pss[cpu := pa # pss ! cpu]"
  have fresh: "\<forall>p\<in>set pas. managed L p \<and> (\<forall>i<length ?pss1. p \<notin> set (?pss1 ! i))"
    using Cons.prems(2,3,4) by (auto simp: nth_list_update)
  from Cons.IH [OF s1(2) _ _ fresh, of "remove1 pa out"] Cons.prems(2,3)
  obtain s' out' where r: "krun L (map (Free cpu) pas) (s1, remove1 pa out) = Some (s', out')"
      "pools_ok L s' (?pss1[cpu := rev pas @ ?pss1 ! cpu]) {}" by auto
  show ?case using s1(1) r Cons.prems(2) by simp
qed

lemma managed_pages10: "\<forall>p\<in>set pages10. managed L10 p"
  by (simp add: pages10_def managed_def L10_def pgaligned_def PGSIZE_def)

lemma scenarioA_ok: "pools_ok L10 scenarioA [rev pages10, []] {}"
proof -
  have "\<exists>s' out'. krun L10 (map (Free 0) pages10) (boot 2, pages10) = Some (s', out') \<and>
     pools_ok L10 s' ((replicate 2 [])[0 := rev pages10 @ replicate 2 [] ! 0]) {}"
    using managed_pages10
    by (intro krun_frees pools_ok_boot) (simp_all add: pages10_def)
  then show ?thesis by (auto simp: scenarioA_def numeral_2_eq_2)
qed

lemma halves_set:
  assumes "distinct qs" "qs \<noteq> []"
  shows "set (tl (take (Suc k) qs)) \<union> set (drop (Suc k) qs) = set qs - {hd qs}"
proof -
  obtain x xs where qs: "qs = x # xs" using assms(2) by (cases qs) auto
  have "set xs = set (take k xs) \<union> set (drop k xs)"
    by (metis append_take_drop_id set_append)
  then show ?thesis using assms(1) qs by auto
qed

lemma halves_length:
  assumes "qs \<noteq> []"
  shows "length (tl (take (Suc (length qs div 2)) qs)) + length (drop (Suc (length qs div 2)) qs) + 1
         = length qs"
proof -
  have "length qs div 2 < length qs" using assms by simp
  then show ?thesis by simp
qed

lemma in_concat_nth: "x \<in> set (concat xss) \<longleftrightarrow> (\<exists>i<length xss. x \<in> set (xss ! i))"
proof
  assume "x \<in> set (concat xss)"
  then obtain ys where "ys \<in> set xss" "x \<in> set ys" by auto
  then show "\<exists>i<length xss. x \<in> set (xss ! i)" by (metis in_set_conv_nth)
next
  assume "\<exists>i<length xss. x \<in> set (xss ! i)"
  then show "x \<in> set (concat xss)" by (metis nth_mem set_concat UN_I)
qed

lemma length_concat_update:
  "i < length xss \<Longrightarrow> length (concat (xss[i := ys])) + length (xss ! i) = length (concat xss) + length ys"
proof (induction xss arbitrary: i)
  case Nil
  then show ?case by simp
next
  case (Cons a xss)
  then show ?case by (cases i) auto
qed

lemma sum_freelen:
  assumes "pools_ok L s pss H"
  shows "sum_list (map freelen (kmem s)) = int (length (concat pss))"
proof -
  have "map freelen (kmem s) = map (\<lambda>ps. int (length ps)) pss"
    using pools_ok_len [OF assms] pools_ok_nth [OF assms]
    by (intro nth_equalityI) simp_all
  moreover have "(\<Sum>ps\<leftarrow>pss. int (length ps)) = int (\<Sum>ps\<leftarrow>pss. length ps)"
    by (induction pss) simp_all
  ultimately show ?thesis by (simp add: length_concat)
qed

lemma reschedule_rebalance:
  assumes ok: "pools_ok L s pss {cid}" and cid: "cid < length pss" and empty: "pss ! cid = []"
    and some: "\<exists>i<length pss. pss ! i \<noteq> []"
  shows "\<exists>d s'. d < length pss \<and> d \<noteq> cid \<and> pss ! d \<noteq> [] \<and> fst (snd (scan cid (kmem s))) = int d \<and>
           reschedule s cid = Some (Inr (hd (pss ! d), s')) \<and>
           pools_ok L s' (pss[cid := tl (take (Suc (length (pss ! d) div 2)) (pss ! d)),
                              d := drop (Suc (length (pss ! d) div 2)) (pss ! d)]) {cid}"
proof -
  have some': "\<exists>i<length pss. i \<noteq> cid \<and> pss ! i \<noteq> []" using some empty by metis
  from scan_donor [OF ok cid some'] obtain d where d: "d < length pss" "d \<noteq> cid" "pss ! d \<noteq> []"
      "scan cid (kmem s) = (acquire d (kmem s), int d, freelen (kmem s ! d))"
    by blast
  from reschedule_some [OF ok cid empty d] d show ?thesis by auto
qed

lemma sys_ok_free:
  assumes ok: "sys_ok L s pss out" and cpu: "cpu < length (kmem s)" and pa: "pa \<in> set out"
  shows "\<exists>s'. kstep L (Free cpu pa) (s, out) = Some (s', remove1 pa out) \<and>
           sys_ok L s' (pss[cpu := pa # pss ! cpu]) (remove1 pa out) \<and>
           length (concat (pss[cpu := pa # pss ! cpu])) + length (remove1 pa out)
             = length (concat pss) + length out"
proof -
  from ok have pok: "pools_ok L s pss {}" and dout: "distinct out"
    and mout: "\<forall>p\<in>set out. managed L p" and dis: "\<forall>i<length pss. set (pss ! i) \<inter> set out = {}"
    by (simp_all add: sys_ok_def)
  have cpu': "cpu < length pss" using cpu pools_ok_len [OF pok] by simp
  have m: "managed L pa" using mout pa by simp
  have new: "\<forall>i<length pss. pa \<notin> set (pss ! i)" using dis pa by auto
  from kfree_ok [OF pok cpu' m new] obtain s' where
    s': "kfree L cpu s pa = Inr s'" "pools_ok L s' (pss[cpu := pa # pss ! cpu]) {}" by blast
  have "sys_ok L s' (pss[cpu := pa # pss ! cpu]) (remove1 pa out)"
    unfolding sys_ok_def
  proof (intro conjI allI impI ballI)
    show "pools_ok L s' (pss[cpu := pa # pss ! cpu]) {}" by (rule s'(2))
    show "distinct (remove1 pa out)" using dout by simp
    show "managed L p" if "p \<in> set (remove1 pa out)" for p
      using that mout dout by simp
    show "set (pss[cpu := pa # pss ! cpu] ! i) \<inter> set (remove1 pa out) = {}"
      if "i < length (pss[cpu := pa # pss ! cpu])" for i
      using that dis dout by (cases "i = cpu") (auto simp: nth_list_update)
  qed
  moreover have "length (remove1 pa out) + 1 = length out"
    using pa length_pos_if_in_set [OF pa] by (simp add: length_remove1)
  then have "length (concat (pss[cpu := pa # pss ! cpu])) + length (remove1 pa out)
             = length (concat pss) + length out"
    using length_concat_update [OF cpu', of "pa # pss ! cpu"] by simp
  ultimately show ?thesis using s'(1) by simp
qed

lemma sys_ok_alloc:
  assumes ok: "sys_ok L s pss out" and cpu: "cpu < length (kmem s)"
  shows "\<exists>s' out' pss'. kstep L (Alloc cpu) (s, out) = Some (s', out') \<and>
           sys_ok L s' pss' out' \<and>
           length (concat pss') + length out' = length (concat pss) + length out"
proof -
  from ok have pok: "pools_ok L s pss {}" and dout: "distinct out"
    and mout: "\<forall>p\<in>set out. managed L p" and dis: "\<forall>i<length pss. set (pss ! i) \<inter> set out = {}"
    by (simp_all add: sys_ok_def)
  have cpu': "cpu < length pss" using cpu pools_ok_len [OF pok] by simp
  show ?thesis
  proof (cases "pss ! cpu")
    case (Cons p ps)
    from kalloc_local [OF pok cpu' Cons] obtain s' where
      s': "kalloc s cpu = Some (Inr (p, s'))" "pools_ok L s' (pss[cpu := ps]) {}" by blast
    note C = pools_ok_nth [OF pok cpu', unfolded Cons]
    have p0: "p \<noteq> 0" using C by auto
    have pin: "p \<in> set (pss ! cpu)" using Cons by simp
    have "sys_ok L s' (pss[cpu := ps]) (p # out)"
      unfolding sys_ok_def
    proof (intro conjI allI impI ballI)
      show "pools_ok L s' (pss[cpu := ps]) {}" by (rule s'(2))
      show "distinct (p # out)" using dout dis cpu' pin by auto
      show "managed L q" if "q \<in> set (p # out)" for q
        using that mout C by auto
      show "set (pss[cpu := ps] ! i) \<inter> set (p # out) = {}" if "i < length (pss[cpu := ps])" for i
      proof (cases "i = cpu")
        case True
        then show ?thesis using that dis C Cons cpu' by (auto simp: disjoint_iff)
      next
        case False
        then show ?thesis using that dis pools_ok_disj [OF pok, of i cpu] cpu' pin
          by (auto simp: disjoint_iff)
      qed
    qed
    moreover have "length (concat (pss[cpu := ps])) + length (p # out) = length (concat pss) + length out"
      using length_concat_update [OF cpu', of ps] Cons by simp
    ultimately show ?thesis using s'(1) p0 by (intro exI [of _ s'] exI [of _ "p # out"] exI [of _ "pss[cpu := ps]"]) simp
  next
    case Nil
    show ?thesis
    proof (cases "\<forall>i<length pss. pss ! i = []")
      case True
      from kalloc_empty [OF pok cpu' True] ok show ?thesis
        by (intro exI [of _ s] exI [of _ out] exI [of _ pss]) simp
    next
      case False
      then have some: "\<exists>i<length pss. pss ! i \<noteq> []" by simp
      from kalloc_steal [OF pok cpu' Nil some] obtain d s' where
        d: "d < length pss" "d \<noteq> cpu" "pss ! d \<noteq> []"
        and eq: "kalloc s cpu = Some (Inr (hd (pss ! d), s'))"
        and ok': "pools_ok L s' (pss[cpu := tl (take (Suc (length (pss ! d) div 2)) (pss ! d)),
                              d := drop (Suc (length (pss ! d) div 2)) (pss ! d)]) {}"
        by blast
      define qs where "qs = pss ! d"
      define A where "A = tl (take (Suc (length qs div 2)) qs)"
      define B where "B = drop (Suc (length qs div 2)) qs"
      define pss' where "pss' = pss[cpu := A, d := B]"
      note D = pools_ok_nth [OF pok d(1), folded qs_def]
      have qne: "qs \<noteq> []" using d(3) by (simp add: qs_def)
      have AB: "set A \<union> set B = set qs - {hd qs}"
        unfolding A_def B_def using D qne by (intro halves_set) simp_all
      have hq: "hd qs \<in> set qs" using qne by simp
      have h0: "hd qs \<noteq> 0" using D hq by (auto simp: managed_def)
      have nth': "pss' ! i = (if i = d then B else if i = cpu then A else pss ! i)"
        if "i < length pss" for i
        using that d(2) by (simp add: pss'_def nth_list_update)
      have ok'': "pools_ok L s' pss' {}" using ok' by (simp add: pss'_def A_def B_def qs_def)
      have "sys_ok L s' pss' (hd qs # out)"
        unfolding sys_ok_def
      proof (intro conjI allI impI ballI)
        show "pools_ok L s' pss' {}" by (rule ok'')
        show "distinct (hd qs # out)" using dout dis d(1) hq by (auto simp: qs_def)
        show "managed L q" if "q \<in> set (hd qs # out)" for q
          using that mout D hq by auto
        show "set (pss' ! i) \<inter> set (hd qs # out) = {}" if "i < length pss'" for i
        proof -
          have i: "i < length pss" using that by (simp add: pss'_def)
          have "set (pss ! i) \<inter> set out = {}" "set qs \<inter> set out = {}"
            using dis i d(1) by (simp_all add: qs_def)
          moreover have "hd qs \<notin> set (pss ! i)" if "i \<noteq> d"
            using pools_ok_disj [OF pok, of i d] that i d(1) hq by (auto simp: qs_def)
          ultimately show ?thesis using AB by (auto simp: nth' [OF i])
        qed
      qed
      moreover have "length (concat pss') + length (hd qs # out) = length (concat pss) + length out"
      proof -
        have "length (concat (pss[cpu := A])) = length (concat pss) + length A"
          using length_concat_update [OF cpu', of A] Nil by simp
        moreover have "length (concat pss') + length qs = length (concat (pss[cpu := A])) + length B"
          using length_concat_update [of d "pss[cpu := A]" B] d(1,2) by (simp add: pss'_def qs_def)
        moreover have "length A + length B + 1 = length qs"
          unfolding A_def B_def using qne by (rule halves_length)
        ultimately show ?thesis by simp
      qed
      ultimately show ?thesis using eq h0
        by (intro exI [of _ s'] exI [of _ "hd qs # out"] exI [of _ pss']) (simp add: qs_def)
    qed
  qed
qed

lemma krun_conserves:
  "sys_ok L s pss out \<Longrightarrow> legal_run L ops (s, out) \<Longrightarrow>
   \<exists>s' out' pss'. krun L ops (s, out) = Some (s', out') \<and> sys_ok L s' pss' out' \<and>
     length (concat pss') + length out' = length (concat pss) + length out"
proof (induction ops arbitrary: s pss out)
  case Nil
  then show ?case by auto
next
  case (Cons x ops)
  have "\<exists>s1 out1 pss1. kstep L x (s, out) = Some (s1, out1) \<and> sys_ok L s1 pss1 out1 \<and>
     length (concat pss1) + length out1 = length (concat pss) + length out"
  proof (cases x)
    case (Alloc cpu)
    then show ?thesis using sys_ok_alloc [OF Cons.prems(1), of cpu] Cons.prems(2) by simp
  next
    case (Free cpu pa)
    then show ?thesis using sys_ok_free [OF Cons.prems(1), of cpu pa] Cons.prems(2) by auto
  qed
  then obtain s1 out1 pss1 where 1: "kstep L x (s, out) = Some (s1, out1)" "sys_ok L s1 pss1 out1"
    "length (concat pss1) + length out1 = length (concat pss) + length out" by blast
  have "legal_run L ops (s1, out1)" using Cons.prems(2) 1(1) by simp
  from Cons.IH [OF 1(2) this] 1 show ?case by auto
qed

lemma steal_pages:
  assumes ok: "pools_ok L s pss H" and cpu': "cpu < length pss" and Nil: "pss ! cpu = []"
    and d: "d < length pss" "d \<noteq> cpu" "pss ! d \<noteq> []"
  shows "set (concat (pss[cpu := tl (take (Suc (length (pss ! d) div 2)) (pss ! d)),
                          d := drop (Suc (length (pss ! d) div 2)) (pss ! d)]))
         = set (concat pss) - {hd (pss ! d)}"
    and "hd (pss ! d) \<in> set (concat pss)" and "hd (pss ! d) \<noteq> 0"
proof -
  define qs where "qs = pss ! d"
  define A where "A = tl (take (Suc (length qs div 2)) qs)"
  define B where "B = drop (Suc (length qs div 2)) qs"
  define pss' where "pss' = pss[cpu := A, d := B]"
  note D = pools_ok_nth [OF ok d(1), folded qs_def]
  have qne: "qs \<noteq> []" using d(3) by (simp add: qs_def)
  have AB: "set A \<union> set B = set qs - {hd qs}"
    unfolding A_def B_def using D qne by (intro halves_set) simp_all
  have hq: "hd qs \<in> set qs" using qne by simp
  have h0: "hd qs \<noteq> 0" using D hq by (auto simp: managed_def)
  have hin: "hd qs \<in> set (concat pss)" unfolding in_concat_nth using hq d(1) by (auto simp: qs_def)
  have nth': "pss' ! i = (if i = d then B else if i = cpu then A else pss ! i)"
    if "i < length pss" for i
    using that d(2) by (simp add: pss'_def nth_list_update)
  have len': "length pss' = length pss" by (simp add: pss'_def)
  have "set (concat pss') = set (concat pss) - {hd qs}"
  proof (intro set_eqI iffI)
    fix x assume "x \<in> set (concat pss')"
    then obtain i where i: "i < length pss" "x \<in> set (pss' ! i)"
      unfolding in_concat_nth using len' by auto
    have "x \<noteq> hd qs" if "i \<noteq> d" "i \<noteq> cpu"
      using that i pools_ok_disj [OF ok, of i d] d(1) hq by (auto simp: nth' qs_def)
    then show "x \<in> set (concat pss) - {hd qs}"
      unfolding Diff_iff in_concat_nth using i AB d(1) by (auto simp: nth' qs_def split: if_splits)
  next
    fix x assume "x \<in> set (concat pss) - {hd qs}"
    then obtain i where i: "i < length pss" "x \<in> set (pss ! i)" "x \<noteq> hd qs"
      unfolding Diff_iff in_concat_nth by auto
    have "i \<noteq> cpu" using i Nil by auto
    have "\<exists>j<length pss. x \<in> set (pss' ! j)"
    proof (cases "i = d")
      case True
      then have "x \<in> set A \<union> set B" using i AB by (simp add: qs_def)
      then show ?thesis using nth' [OF d(1)] nth' [of cpu] d(1,2) \<open>cpu < length pss\<close> by auto
    next
      case False
      then show ?thesis using i \<open>i \<noteq> cpu\<close> nth' [OF i(1)] by auto
    qed
    then show "x \<in> set (concat pss')" unfolding in_concat_nth using len' by auto
  qed
  then show "set (concat (pss[cpu := tl (take (Suc (length (pss ! d) div 2)) (pss ! d)),
                          d := drop (Suc (length (pss ! d) div 2)) (pss ! d)]))
         = set (concat pss) - {hd (pss ! d)}"
    by (simp add: pss'_def A_def B_def qs_def)
  show "hd (pss ! d) \<in> set (concat pss)" using hin by (simp add: qs_def)
  show "hd (pss ! d) \<noteq> 0" using h0 by (simp add: qs_def)
qed

lemma scenarioA_kmem: "length (kmem scenarioA) = 2"
  using pools_ok_len [OF scenarioA_ok] by simp

lemma scenarioA_steal:
  "\<exists>s'. kalloc scenarioA 1 = Some (Inr (0x87FFF000, s')) \<and>
     pools_ok L10 s' [drop 6 (rev pages10), tl (take 6 (rev pages10))] {}"
proof -
  have pre: "1 < length [rev pages10, []]" "[rev pages10, []] ! 1 = []"
    "\<exists>i<length [rev pages10, []]. [rev pages10, []] ! i \<noteq> []"
    by (simp_all add: pages10_def exI [of _ 0])
  from kalloc_steal [OF scenarioA_ok pre] obtain d s' where
    d: "d < length [rev pages10, []]" "d \<noteq> 1"
    and eq: "kalloc scenarioA 1 = Some (Inr (hd ([rev pages10, []] ! d), s'))"
    and ok: "pools_ok L10 s' ([rev pages10, []]
               [1 := tl (take (Suc (length ([rev pages10, []] ! d) div 2)) ([rev pages10, []] ! d)),
                d := drop (Suc (length ([rev pages10, []] ! d) div 2)) ([rev pages10, []] ! d)]) {}"
    by blast
  from d have d0: "d = 0" by simp
  have l: "length pages10 = 10" "Suc (10 div 2) = 6" by (simp_all add: pages10_def)
  have h: "hd (rev pages10) = 0x87FFF000" by (simp add: pages10_def)
  from eq ok show ?thesis unfolding d0 by (simp add: l h)
qed

section \<open>Properties of the page allocator\<close>

text \<open>
  Claim C1 (Scenario A), as the code has it. Pool \<open>X\<close> holds ten free pages, pool \<open>Y\<close> none, and
  every other pool fewer than ten, so that the scan of \<open>reschedule\<close> makes \<open>X\<close> the donor. Then
  \<open>kalloc\<close> on core \<open>Y\<close> returns the first page of \<open>X\<close>'s list, and afterwards \<open>X\<close>'s count is 4
  and \<open>Y\<close>'s count is 5: the walk stops at the sixth page, the front six pages move to \<open>Y\<close>, of
  which the first is returned, and the last four stay with \<open>X\<close>. The counts are the lengths of
  the two lists.
\<close>

theorem scenario_A:
  assumes ok: "pools_ok L s pss {}" and X: "X < length pss" and Y: "Y < length pss" and XY: "X \<noteq> Y"
    and ten: "length (pss ! X) = 10" and none: "pss ! Y = []"
    and others: "\<forall>i<length pss. i \<noteq> X \<longrightarrow> i \<noteq> Y \<longrightarrow> length (pss ! i) < 10"
  shows "\<exists>s'. kalloc s Y = Some (Inr (hd (pss ! X), s')) \<and>
           freelen (kmem s' ! X) = 4 \<and> freelen (kmem s' ! Y) = 5 \<and>
           pools_ok L s' (pss[Y := take 5 (tl (pss ! X)), X := drop 6 (pss ! X)]) {}"
proof -
  have some: "\<exists>i<length pss. pss ! i \<noteq> []" using X ten by (intro exI [of _ X]) auto
  from kalloc_steal [OF ok Y none some] obtain d s' where
    d: "d < length pss" "d \<noteq> Y" "pss ! d \<noteq> []"
    and mx: "\<forall>i<length pss. i \<noteq> Y \<longrightarrow> length (pss ! i) \<le> length (pss ! d)"
    and eq: "kalloc s Y = Some (Inr (hd (pss ! d), s'))"
    and ok': "pools_ok L s' (pss[Y := tl (take (Suc (length (pss ! d) div 2)) (pss ! d)),
                            d := drop (Suc (length (pss ! d) div 2)) (pss ! d)]) {}"
    by blast
  have "10 \<le> length (pss ! d)" using mx X XY ten by fastforce
  then have dX: "d = X" using others d(1,2) by fastforce
  have tt: "tl (take 6 (pss ! X)) = take 5 (tl (pss ! X))" by (simp add: tl_take)
  have ok'': "pools_ok L s' (pss[Y := take 5 (tl (pss ! X)), X := drop 6 (pss ! X)]) {}"
    using ok' unfolding dX ten by (simp add: tt)
  have "freelen (kmem s' ! X) = 4"
    using pools_ok_nth [OF ok'', of X] X XY ten by simp
  moreover have "freelen (kmem s' ! Y) = 5"
    using pools_ok_nth [OF ok'', of Y] Y XY ten by (simp add: nth_list_update)
  ultimately show ?thesis using eq ok'' dX by blast
qed

text \<open>The same at the two-core machine whose ten pages were all freed on core 0.\<close>

theorem scenario_A_witness:
  "\<exists>s'. kalloc scenarioA 1 = Some (Inr (0x87FFF000, s')) \<and>
     freelen (kmem s' ! 0) = 4 \<and> freelen (kmem s' ! 1) = 5"
proof -
  have "\<exists>s'. kalloc scenarioA 1 = Some (Inr (hd ([rev pages10, []] ! 0), s')) \<and>
           freelen (kmem s' ! 0) = 4 \<and> freelen (kmem s' ! 1) = 5 \<and>
           pools_ok L10 s' ([rev pages10, []][1 := take 5 (tl ([rev pages10, []] ! 0)),
                              0 := drop 6 ([rev pages10, []] ! 0)]) {}"
    by (rule scenario_A [OF scenarioA_ok]) (simp_all add: pages10_def)
  then show ?thesis by (auto simp: pages10_def)
qed

text \<open>
  Claim C1 as stated (\<open>X\<close> ends at 5 and \<open>Y\<close> at 4) fails at that machine: after \<open>kalloc\<close> on
  core 1 the counts of pools 0 and 1 are 4 and 5.
\<close>

theorem scenario_A_counterexample:
  "counts_after (kalloc scenarioA 1) = [4, 5] \<and> counts_after (kalloc scenarioA 1) \<noteq> [5, 4]"
proof -
  from scenarioA_steal obtain s' where eq: "kalloc scenarioA 1 = Some (Inr (0x87FFF000, s'))"
    and ok: "pools_ok L10 s' [drop 6 (rev pages10), tl (take 6 (rev pages10))] {}" by blast
  have len: "length (kmem s') = 2" using pools_ok_len [OF ok] by simp
  have "freelen (kmem s' ! 0) = 4" "freelen (kmem s' ! 1) = 5"
    using pools_ok_nth [OF ok, of 0] pools_ok_nth [OF ok, of 1] by (simp_all add: pages10_def)
  then have "map freelen (kmem s') = [4, 5]"
    using len by (intro nth_equalityI) (auto simp: less_Suc_eq numeral_2_eq_2)
  then show ?thesis using eq by (simp add: counts_after_def)
qed

text \<open>
  Claim C5. A call of \<open>reschedule\<close> on core \<open>cid\<close> whose own list is empty, with some other pool
  non-empty, in a consistent state: the donor \<open>d\<close> is the pool the scan chose, the call returns
  the donor's first page, afterwards every pool's count is again the length of its list
  (\<open>pools_ok\<close>), the donor's count plus the requester's count is the donor's old length minus
  one, and the pages in the pools are the old ones without the returned page. Consequently,
  along every run of legal \<open>kalloc\<close> and \<open>kfree\<close> calls from a consistent state no call
  panics or hangs, and the sum of all counts plus the number of outstanding pages stays the
  number of managed pages.
\<close>

theorem rebalance_conservation:
  "(pools_ok L s pss {cid} \<and> cid < length pss \<and> pss ! cid = [] \<and> (\<exists>i<length pss. pss ! i \<noteq> []) \<longrightarrow>
      (\<exists>d r s' pss'. d < length pss \<and> d \<noteq> cid \<and> fst (snd (scan cid (kmem s))) = int d \<and>
         reschedule s cid = Some (Inr (r, s')) \<and> r = hd (pss ! d) \<and> r \<noteq> 0 \<and>
         pools_ok L s' pss' {cid} \<and>
         freelen (kmem s' ! d) + freelen (kmem s' ! cid) = int (length (pss ! d)) - 1 \<and>
         set (concat pss') = set (concat pss) - {r})) \<and>
   (sys_ok L t qss out \<and> legal_run L ops (t, out) \<longrightarrow>
      (\<exists>t' out' qss'. krun L ops (t, out) = Some (t', out') \<and> sys_ok L t' qss' out' \<and>
         sum_list (map freelen (kmem t')) + int (length out')
           = int (length (concat qss)) + int (length out)))"
proof (intro conjI impI)
  assume a: "pools_ok L s pss {cid} \<and> cid < length pss \<and> pss ! cid = [] \<and> (\<exists>i<length pss. pss ! i \<noteq> [])"
  then have ok: "pools_ok L s pss {cid}" and cid: "cid < length pss" and empty: "pss ! cid = []"
    and some: "\<exists>i<length pss. pss ! i \<noteq> []" by simp_all
  from reschedule_rebalance [OF ok cid empty some] obtain d s' where
    d: "d < length pss" "d \<noteq> cid" "pss ! d \<noteq> []" "fst (snd (scan cid (kmem s))) = int d"
    and eq: "reschedule s cid = Some (Inr (hd (pss ! d), s'))"
    and ok': "pools_ok L s' (pss[cid := tl (take (Suc (length (pss ! d) div 2)) (pss ! d)),
                            d := drop (Suc (length (pss ! d) div 2)) (pss ! d)]) {cid}"
    by blast
  let ?A = "tl (take (Suc (length (pss ! d) div 2)) (pss ! d))"
  let ?B = "drop (Suc (length (pss ! d) div 2)) (pss ! d)"
  have fd: "freelen (kmem s' ! d) = int (length ?B)"
    using pools_ok_nth [OF ok', of d] d(1) by simp
  have fc: "freelen (kmem s' ! cid) = int (length ?A)"
    using pools_ok_nth [OF ok', of cid] cid d(2) by (simp add: nth_list_update)
  have "length ?A + length ?B + 1 = length (pss ! d)" using d(3) by (rule halves_length)
  then have sum: "freelen (kmem s' ! d) + freelen (kmem s' ! cid) = int (length (pss ! d)) - 1"
    unfolding fd fc by linarith
  from steal_pages [OF ok cid empty d(1,2,3)] d eq ok' sum
  show "\<exists>d r s' pss'. d < length pss \<and> d \<noteq> cid \<and> fst (snd (scan cid (kmem s))) = int d \<and>
         reschedule s cid = Some (Inr (r, s')) \<and> r = hd (pss ! d) \<and> r \<noteq> 0 \<and>
         pools_ok L s' pss' {cid} \<and>
         freelen (kmem s' ! d) + freelen (kmem s' ! cid) = int (length (pss ! d)) - 1 \<and>
         set (concat pss') = set (concat pss) - {r}"
    by blast
next
  assume "sys_ok L t qss out \<and> legal_run L ops (t, out)"
  then have ok: "sys_ok L t qss out" and lr: "legal_run L ops (t, out)" by simp_all
  from krun_conserves [OF ok lr] obtain t' out' qss' where
    r: "krun L ops (t, out) = Some (t', out')" "sys_ok L t' qss' out'"
    "length (concat qss') + length out' = length (concat qss) + length out" by blast
  have "sum_list (map freelen (kmem t')) = int (length (concat qss'))"
    using r(2) by (intro sum_freelen [of L t' qss' "{}"]) (simp add: sys_ok_def)
  then have "sum_list (map freelen (kmem t')) + int (length out')
           = int (length (concat qss)) + int (length out)"
    using r(3) by linarith
  with r(1,2) show "\<exists>t' out' qss'. krun L ops (t, out) = Some (t', out') \<and> sys_ok L t' qss' out' \<and>
         sum_list (map freelen (kmem t')) + int (length out')
           = int (length (concat qss)) + int (length out)"
    by blast
qed

text \<open>At the ten-page machine: a rebalance for core 1, and an allocation followed by a free.\<close>

theorem rebalance_conservation_witness:
  "(\<exists>r s'. reschedule (scenarioA\<lparr>kmem := acquire 1 (kmem scenarioA)\<rparr>) 1 = Some (Inr (r, s')) \<and>
      freelen (kmem s' ! 0) + freelen (kmem s' ! 1) = 9) \<and>
   (\<exists>t' out'. krun L10 [Alloc 1, Free 0 0x87FFF000] (scenarioA, []) = Some (t', out') \<and>
      sum_list (map freelen (kmem t')) + int (length out') = 10)"
proof -
  let ?s = "scenarioA\<lparr>kmem := acquire 1 (kmem scenarioA)\<rparr>"
  let ?pss = "[rev pages10, []]"
  have ok1: "pools_ok L10 ?s ?pss {1}"
    using pools_ok_acquire [OF scenarioA_ok, of 1] by simp
  have h1: "pools_ok L10 ?s ?pss {1} \<and> 1 < length ?pss \<and> ?pss ! 1 = [] \<and> (\<exists>i<length ?pss. ?pss ! i \<noteq> [])"
    using ok1 by (simp add: pages10_def exI [of _ 0])
  have sys: "sys_ok L10 scenarioA ?pss []"
    using scenarioA_ok by (simp add: sys_ok_def)
  from scenarioA_steal obtain s1 where k: "kalloc scenarioA 1 = Some (Inr (0x87FFF000, s1))"
    and ok2: "pools_ok L10 s1 [drop 6 (rev pages10), tl (take 6 (rev pages10))] {}" by blast
  have "length (kmem s1) = 2" using pools_ok_len [OF ok2] by simp
  then have lr: "legal_run L10 [Alloc 1, Free 0 0x87FFF000] (scenarioA, [])"
    using k by (simp add: scenarioA_kmem split: option.split)
  note T = rebalance_conservation [of L10 ?s ?pss 1 scenarioA ?pss "[]" "[Alloc 1, Free 0 0x87FFF000]"]
  from T h1 obtain d r s' where d: "d < length ?pss" "d \<noteq> 1"
    and eq: "reschedule ?s 1 = Some (Inr (r, s'))"
    and sum: "freelen (kmem s' ! d) + freelen (kmem s' ! 1) = int (length (?pss ! d)) - 1"
    by blast
  from d have "d = 0" by simp
  with sum have "freelen (kmem s' ! 0) + freelen (kmem s' ! 1) = 9" by (simp add: pages10_def)
  moreover from T sys lr obtain t' out' where
    "krun L10 [Alloc 1, Free 0 0x87FFF000] (scenarioA, []) = Some (t', out')"
    "sum_list (map freelen (kmem t')) + int (length out') = int (length (concat ?pss)) + int (length ([] :: addr list))"
    by blast
  ultimately show ?thesis using eq by (auto simp: pages10_def)
qed

text \<open>
  Claim C8. \<open>kfree(pa)\<close> panics exactly when \<open>pa\<close> is not a multiple of 4096, or is below \<open>end\<close>,
  or is not below \<open>PHYSTOP\<close>. Otherwise it returns; the page has been filled with the byte 1
  and its first eight bytes then hold the old head of the core's list; the page is the new
  head of that list, which so consists of the page followed by the old list; the core's
  count has grown by one; the other pools are unchanged.
\<close>

theorem kfree_contract:
  assumes cpu: "cpu < length (kmem s)"
  shows "((\<exists>e. kfree L cpu s pa = Inl e) \<longleftrightarrow> (pa mod PGSIZE \<noteq> 0 \<or> pa < kend L \<or> PHYSTOP L \<le> pa)) \<and>
    (pa mod PGSIZE = 0 \<and> kend L \<le> pa \<and> pa < PHYSTOP L \<longrightarrow>
       (\<exists>s'. kfree L cpu s pa = Inr s' \<and>
          mem s' = store64 (memset (mem s) pa 1 PGSIZE) pa (freelist (kmem s ! cpu)) \<and>
          (\<forall>i. 8 \<le> i \<and> i < 4096 \<longrightarrow> mem s' (pa + i) = 1) \<and>
          freelist (kmem s' ! cpu) = pa \<and>
          load64 (mem s') pa = freelist (kmem s ! cpu) \<and>
          freelen (kmem s' ! cpu) = freelen (kmem s ! cpu) + 1 \<and>
          length (kmem s') = length (kmem s) \<and>
          (\<forall>j<length (kmem s). j \<noteq> cpu \<longrightarrow> kmem s' ! j = kmem s ! j) \<and>
          (\<forall>ps. islist (mem s) (freelist (kmem s ! cpu)) ps \<and> pa \<noteq> 0 \<and> pa \<notin> set ps \<and>
                (\<forall>x\<in>set ps. pgaligned x) \<longrightarrow>
                islist (mem s') (freelist (kmem s' ! cpu)) (pa # ps))))"
proof (intro conjI impI)
  show "(\<exists>e. kfree L cpu s pa = Inl e) \<longleftrightarrow> (pa mod PGSIZE \<noteq> 0 \<or> pa < kend L \<or> PHYSTOP L \<le> pa)"
    by (auto simp: kfree_def Let_def simp del: mod_eq_0_iff_dvd)
next
  assume ok: "pa mod PGSIZE = 0 \<and> kend L \<le> pa \<and> pa < PHYSTOP L"
  let ?m2 = "store64 (memset (mem s) pa 1 PGSIZE) pa (freelist (kmem s ! cpu))"
  let ?s' = "\<lparr>mem = ?m2, kmem = (kmem s)[cpu := (kmem s ! cpu)\<lparr>freelist := pa,
                 freelen := freelen (kmem s ! cpu) + 1, lock := False\<rparr>]\<rparr>"
  have eq: "kfree L cpu s pa = Inr ?s'" using ok cpu by (intro kfree_eq) simp_all
  have al: "pgaligned pa" using ok by (simp add: pgaligned_def)
  have fill: "\<forall>i. 8 \<le> i \<and> i < 4096 \<longrightarrow> ?m2 (pa + i) = 1"
    by (simp add: store64_same_high memset_in PGSIZE_def)
  have push: "islist ?m2 pa (pa # ps)"
    if "islist (mem s) (freelist (kmem s ! cpu)) ps \<and> pa \<noteq> 0 \<and> pa \<notin> set ps \<and> (\<forall>x\<in>set ps. pgaligned x)"
    for ps
    using that al by (simp add: load64_store64_same islist_frame_store islist_frame_memset)
  show "\<exists>s'. kfree L cpu s pa = Inr s' \<and>
          mem s' = ?m2 \<and>
          (\<forall>i. 8 \<le> i \<and> i < 4096 \<longrightarrow> mem s' (pa + i) = 1) \<and>
          freelist (kmem s' ! cpu) = pa \<and>
          load64 (mem s') pa = freelist (kmem s ! cpu) \<and>
          freelen (kmem s' ! cpu) = freelen (kmem s ! cpu) + 1 \<and>
          length (kmem s') = length (kmem s) \<and>
          (\<forall>j<length (kmem s). j \<noteq> cpu \<longrightarrow> kmem s' ! j = kmem s ! j) \<and>
          (\<forall>ps. islist (mem s) (freelist (kmem s ! cpu)) ps \<and> pa \<noteq> 0 \<and> pa \<notin> set ps \<and>
                (\<forall>x\<in>set ps. pgaligned x) \<longrightarrow>
                islist (mem s') (freelist (kmem s' ! cpu)) (pa # ps))"
    apply (rule exI [of _ ?s'])
    using eq cpu fill push by (simp add: load64_store64_same)
qed

text \<open>Freeing the first page of the ten-page machine at boot, and a misaligned address.\<close>

theorem kfree_contract_witness:
  "0 < length (kmem (boot 2)) \<and> (0x87FF6000 :: addr) mod PGSIZE = 0 \<and> kend L10 \<le> 0x87FF6000 \<and>
   0x87FF6000 < PHYSTOP L10 \<and>
   (\<exists>s'. kfree L10 0 (boot 2) 0x87FF6000 = Inr s' \<and> freelist (kmem s' ! 0) = 0x87FF6000 \<and>
      freelen (kmem s' ! 0) = 1 \<and> islist (mem s') (freelist (kmem s' ! 0)) [0x87FF6000]) \<and>
   (\<exists>e. kfree L10 0 (boot 2) 0x87FF6001 = Inl e)"
proof -
  have c: "0 < length (kmem (boot 2))" by (simp add: boot_def)
  have a: "(0x87FF6000 :: addr) mod PGSIZE = 0 \<and> kend L10 \<le> 0x87FF6000 \<and> 0x87FF6000 < PHYSTOP L10"
    by (simp add: PGSIZE_def L10_def)
  have b: "(0x87FF6001 :: addr) mod PGSIZE \<noteq> 0" by (simp add: PGSIZE_def)
  have l: "islist (mem (boot 2)) (freelist (kmem (boot 2) ! 0)) []" by (simp add: boot_def)
  from kfree_contract [OF c, of L10 "0x87FF6000"] a l obtain s' where
    "kfree L10 0 (boot 2) 0x87FF6000 = Inr s'" "freelist (kmem s' ! 0) = 0x87FF6000"
    "freelen (kmem s' ! 0) = freelen (kmem (boot 2) ! 0) + 1"
    "islist (mem s') (freelist (kmem s' ! 0)) [0x87FF6000]"
    by (auto simp del: mod_eq_0_iff_dvd)
  moreover have "freelen (kmem (boot 2) ! 0) = 0" by (simp add: boot_def)
  moreover have "\<exists>e. kfree L10 0 (boot 2) 0x87FF6001 = Inl e"
    using kfree_contract [OF c, of L10 "0x87FF6001"] b by blast
  ultimately show ?thesis using a c by auto
qed

text \<open>
  Claim C9. In a consistent state: when every pool's list is empty, \<open>kalloc\<close> returns the null
  pointer and leaves the state as it was; when some pool's list is not empty, \<open>kalloc\<close> returns
  a non-null page that was in a pool, and afterwards the pools are consistent again and hold
  the old pages without that page.
\<close>

theorem kalloc_exhaustion:
  assumes ok: "pools_ok L s pss {}" and cpu: "cpu < length (kmem s)"
  shows "((\<forall>i<length (kmem s). freelist (kmem s ! i) = 0) \<longrightarrow> kalloc s cpu = Some (Inr (0, s))) \<and>
    ((\<exists>i<length (kmem s). freelist (kmem s ! i) \<noteq> 0) \<longrightarrow>
       (\<exists>r s' pss'. kalloc s cpu = Some (Inr (r, s')) \<and> r \<noteq> 0 \<and> r \<in> set (concat pss) \<and>
          pools_ok L s' pss' {} \<and> set (concat pss') = set (concat pss) - {r}))"
proof (intro conjI impI)
  note len = pools_ok_len [OF ok]
  have cpu': "cpu < length pss" using cpu len by simp
  have hz: "(freelist (kmem s ! i) = 0) = (pss ! i = [])" if "i < length pss" for i
    using pools_ok_nth [OF ok that] islist_head_zero [of "mem s" "freelist (kmem s ! i)" "pss ! i"]
    by blast
  {
    assume "\<forall>i<length (kmem s). freelist (kmem s ! i) = 0"
    then have "\<forall>i<length pss. pss ! i = []" using hz len by simp
    then show "kalloc s cpu = Some (Inr (0, s))" by (rule kalloc_empty [OF ok cpu'])
  }
  assume "\<exists>i<length (kmem s). freelist (kmem s ! i) \<noteq> 0"
  then have some: "\<exists>i<length pss. pss ! i \<noteq> []" using hz len by auto
  show "\<exists>r s' pss'. kalloc s cpu = Some (Inr (r, s')) \<and> r \<noteq> 0 \<and> r \<in> set (concat pss) \<and>
          pools_ok L s' pss' {} \<and> set (concat pss') = set (concat pss) - {r}"
  proof (cases "pss ! cpu")
    case (Cons p ps)
    from kalloc_local [OF ok cpu' Cons] obtain s' where
      s': "kalloc s cpu = Some (Inr (p, s'))" "pools_ok L s' (pss[cpu := ps]) {}" by blast
    note C = pools_ok_nth [OF ok cpu', unfolded Cons]
    have p0: "p \<noteq> 0" and pn: "p \<notin> set ps" using C by auto
    have pin: "p \<in> set (concat pss)" unfolding in_concat_nth using Cons cpu' by auto
    have "set (concat (pss[cpu := ps])) = set (concat pss) - {p}"
    proof (intro set_eqI iffI)
      fix x assume "x \<in> set (concat (pss[cpu := ps]))"
      then obtain i where i: "i < length pss" "x \<in> set (pss[cpu := ps] ! i)"
        unfolding in_concat_nth by auto
      show "x \<in> set (concat pss) - {p}"
      proof (cases "i = cpu")
        case True
        then show ?thesis unfolding Diff_iff in_concat_nth using i pn Cons cpu' by auto
      next
        case False
        then have "x \<noteq> p" using i pools_ok_disj [OF ok, of i cpu] cpu' Cons by auto
        then show ?thesis unfolding Diff_iff in_concat_nth using i False by auto
      qed
    next
      fix x assume "x \<in> set (concat pss) - {p}"
      then obtain i where i: "i < length pss" "x \<in> set (pss ! i)" "x \<noteq> p"
        unfolding Diff_iff in_concat_nth by auto
      then have "x \<in> set (pss[cpu := ps] ! i)"
        using Cons by (cases "i = cpu") (auto simp: nth_list_update)
      then show "x \<in> set (concat (pss[cpu := ps]))"
        unfolding in_concat_nth using i(1) by auto
    qed
    then show ?thesis using s' p0 pin by blast
  next
    case Nil
    from kalloc_steal [OF ok cpu' Nil some] obtain d s' where
      d: "d < length pss" "d \<noteq> cpu" "pss ! d \<noteq> []"
      and eq: "kalloc s cpu = Some (Inr (hd (pss ! d), s'))"
      and ok': "pools_ok L s' (pss[cpu := tl (take (Suc (length (pss ! d) div 2)) (pss ! d)),
                            d := drop (Suc (length (pss ! d) div 2)) (pss ! d)]) {}"
      by blast
    from steal_pages [OF ok cpu' Nil d] eq ok' show ?thesis by blast
  qed
qed

text \<open>At boot with no page freed yet, and at the ten-page machine.\<close>

theorem kalloc_exhaustion_witness:
  "kalloc (boot 2) 1 = Some (Inr (0, boot 2)) \<and>
   (\<exists>r s' pss'. kalloc scenarioA 1 = Some (Inr (r, s')) \<and> r \<noteq> 0 \<and> r \<in> set pages10 \<and>
      pools_ok L10 s' pss' {} \<and> set (concat pss') = set pages10 - {r})"
proof -
  have b: "1 < length (kmem (boot 2))" "\<forall>i<length (kmem (boot 2)). freelist (kmem (boot 2) ! i) = 0"
    by (simp_all add: boot_def less_Suc_eq numeral_2_eq_2)
  have 1: "kalloc (boot 2) 1 = Some (Inr (0, boot 2))"
    using kalloc_exhaustion [OF pools_ok_boot b(1), of L10] b(2) by blast
  have a: "1 < length (kmem scenarioA)" by (simp add: scenarioA_kmem)
  have "freelist (kmem scenarioA ! 0) \<noteq> 0"
    using pools_ok_nth [OF scenarioA_ok, of 0] by (auto simp: pages10_def)
  then have e: "\<exists>i<length (kmem scenarioA). freelist (kmem scenarioA ! i) \<noteq> 0"
    using scenarioA_kmem by (intro exI [of _ 0]) simp
  have 2: "\<exists>r s' pss'. kalloc scenarioA 1 = Some (Inr (r, s')) \<and> r \<noteq> 0 \<and> r \<in> set pages10 \<and>
      pools_ok L10 s' pss' {} \<and> set (concat pss') = set pages10 - {r}"
    using kalloc_exhaustion [OF scenarioA_ok a] e by simp
  from 1 2 show ?thesis by blast
qed

text \<open>
  Claim C10. Whenever \<open>kalloc\<close> returns a non-null page, each of the 4096 bytes of that page is
  the junk byte 5 in the resulting memory, whatever the page held before (its link word
  included).
\<close>

theorem kalloc_junk_fill:
  "kalloc s cpu = Some (Inr (r, s')) \<Longrightarrow> r \<noteq> 0 \<Longrightarrow> \<forall>i<4096. mem s' (r + i) = 5"
  by (auto simp: kalloc_def Let_def memset_in PGSIZE_def
      split: if_splits option.splits sum.splits prod.splits)

text \<open>At the ten-page machine, for the page the rebalance hands to core 1.\<close>

theorem kalloc_junk_fill_witness:
  "\<exists>r s'. kalloc scenarioA 1 = Some (Inr (r, s')) \<and> r \<noteq> 0 \<and> (\<forall>i<4096. mem s' (r + i) = 5)"
proof -
  have pre: "1 < length [rev pages10, []]" "[rev pages10, []] ! 1 = []"
    "\<exists>i<length [rev pages10, []]. [rev pages10, []] ! i \<noteq> []"
    by (simp_all add: pages10_def exI [of _ 0])
  from kalloc_steal [OF scenarioA_ok pre] obtain d s' where
    d: "d < length [rev pages10, []]" "d \<noteq> 1"
    and eq: "kalloc scenarioA 1 = Some (Inr (hd ([rev pages10, []] ! d), s'))"
    by blast
  from d have "d = 0" by simp
  with eq have eq': "kalloc scenarioA 1 = Some (Inr (0x87FFF000, s'))" by (simp add: pages10_def)
  have nz: "(0x87FFF000 :: addr) \<noteq> 0" by simp
  from kalloc_junk_fill [OF eq' nz] eq' nz show ?thesis by blast
qed

section \<open>Lemmas about the buffer cache\<close>

lemma deref_modify_same: "deref (modify b f s) b = map_option f (deref s b)"
  by (cases b) simp_all

lemma head_lock_update:
  "head (ts[i := (ts ! i)\<lparr>tlock := v\<rparr>] ! k) = head (ts ! k)"
  by (cases "i < length ts"; cases "i = k") (simp_all add: not_less list_update_beyond)

lemma deref_release_bucket: "deref (release_bucket i s) b = deref s b"
  by (cases b) (simp_all add: release_bucket_def head_lock_update)

lemma deref_acquire_bucket: "deref (acquire_bucket i s) b = deref s b"
  by (cases b) (simp_all add: acquire_bucket_def head_lock_update)

lemma bget_find_post:
  assumes "bget_find s idx d bn r = Some (Inr (b, s'))"
  shows "b = r \<and> (\<exists>x. deref s' b = Some x \<and> dev x = d \<and> blockno x = bn \<and> \<not> valid x \<and> refcnt x = 1)"
proof -
  let ?s4 = "modify r (\<lambda>x. x\<lparr>refcnt := 1\<rparr>) (modify r (\<lambda>x. x\<lparr>valid := False\<rparr>)
              (modify r (\<lambda>x. x\<lparr>blockno := bn\<rparr>) (modify r (\<lambda>x. x\<lparr>dev := d\<rparr>) s)))"
  let ?s5 = "release_bucket idx ?s4"
  from assms obtain x where x: "deref s r = Some x"
    by (auto simp: bget_find_def split: option.splits)
  have d5: "deref ?s5 r = Some (x\<lparr>dev := d, blockno := bn, valid := False, refcnt := 1\<rparr>)"
    using x by (simp add: deref_release_bucket deref_modify_same)
  from assms x have "acquiresleep r ?s5 = Some (Inr (b, s'))"
    by (simp add: bget_find_def Let_def)
  then have "b = r" and "s' = modify r (\<lambda>x. x\<lparr>slock := True, spid := curproc ?s5\<rparr>) ?s5"
    using d5 by (auto simp: acquiresleep_def split: if_splits)
  then show ?thesis using d5 by (simp add: deref_modify_same)
qed

lemma bget_unlink_post:
  assumes "bget_unlink s idx d bn r ridx = Some (Inr (b, s'))"
  shows "b = r \<and> (\<exists>x. deref s' b = Some x \<and> dev x = d \<and> blockno x = bn \<and> \<not> valid x \<and> refcnt x = 1)"
  using assms
  by (auto simp: bget_unlink_def Let_def split: if_splits option.splits dest!: bget_find_post)

lemma bget_recheck_post:
  assumes "bget_recheck s idx d bn r = Inr (Some (Inr (b, s')))"
  shows "b = r \<and> (\<exists>x. deref s' b = Some x \<and> dev x = d \<and> blockno x = bn \<and> \<not> valid x \<and> refcnt x = 1)"
  using assms
  by (auto simp: bget_recheck_def Let_def split: if_splits option.splits
      dest!: bget_find_post bget_unlink_post)

lemma bget_evict_post:
  assumes "bget_evict s idx d bn r = Some res"
  shows "\<forall>b s'. res = Inr (b, s') \<longrightarrow>
           (\<exists>x. deref s' b = Some x \<and> dev x = d \<and> blockno x = bn \<and> \<not> valid x \<and> refcnt x = 1)"
proof (rule bget_evict.raw_induct [where P = "\<lambda>s idx d bn r res. \<forall>b s'. res = Inr (b, s') \<longrightarrow>
           (\<exists>x. deref s' b = Some x \<and> dev x = d \<and> blockno x = bn \<and> \<not> valid x \<and> refcnt x = 1)",
         OF _ assms], goal_cases)
  case (1 ev s idx d bn replbuf res)
  show ?case
  proof (cases "scan_all (bufs s) replbuf = Null")
    case True
    with 1(2) have "ev s idx d bn Null = Some res" by (simp add: Let_def)
    then show ?thesis by (rule 1(1))
  next
    case False
    show ?thesis
    proof (cases "bget_recheck s idx d bn (scan_all (bufs s) replbuf)")
      case (Inl s1)
      with 1(2) False have "ev s1 idx d bn (scan_all (bufs s) replbuf) = Some res"
        by (simp add: Let_def)
      then show ?thesis by (rule 1(1))
    next
      case (Inr r)
      with 1(2) False have "r = Some res" by (simp add: Let_def)
      with Inr show ?thesis by (auto dest!: bget_recheck_post)
    qed
  qed
qed

lemma scenarioC_state:
  "scenarioC = \<lparr>glock = False,
      bufs = [\<lparr>valid = True, dev = 1, blockno = 5, slock = False, spid = 0, refcnt = 0, nxt = Head 1, timestamp = 3\<rparr>,
              \<lparr>valid = False, dev = 0, blockno = - 1, slock = False, spid = 0, refcnt = 0, nxt = Null, timestamp = 0\<rparr>],
      past_refcnt = 0,
      table = [\<lparr>tlock = False, head = \<lparr>valid = False, dev = 0, blockno = 0, slock = False, spid = 0, refcnt = 0,
                  nxt = Head 0, timestamp = 0\<rparr>\<rparr>,
               \<lparr>tlock = False, head = \<lparr>valid = False, dev = 0, blockno = 0, slock = False, spid = 0, refcnt = 0,
                  nxt = Slot 0, timestamp = 0\<rparr>\<rparr>],
      ticks = 3, disk_log = [(False, 1, 5)], curproc = 1\<rparr>"
  by code_simp

lemma both_held_state:
  "both_held = \<lparr>glock = False,
      bufs = [\<lparr>valid = True, dev = 1, blockno = 5, slock = True, spid = 1, refcnt = 1, nxt = Head 1, timestamp = 0\<rparr>,
              \<lparr>valid = True, dev = 1, blockno = 7, slock = True, spid = 1, refcnt = 1, nxt = Slot 0, timestamp = 0\<rparr>],
      past_refcnt = 0,
      table = [\<lparr>tlock = False, head = \<lparr>valid = False, dev = 0, blockno = 0, slock = False, spid = 0, refcnt = 0,
                  nxt = Head 0, timestamp = 0\<rparr>\<rparr>,
               \<lparr>tlock = False, head = \<lparr>valid = False, dev = 0, blockno = 0, slock = False, spid = 0, refcnt = 0,
                  nxt = Slot 1, timestamp = 0\<rparr>\<rparr>],
      ticks = 0, disk_log = [(False, 1, 5), (False, 1, 7)], curproc = 1\<rparr>"
  by code_simp

lemma both_released_state:
  "both_released = \<lparr>glock = False,
      bufs = [\<lparr>valid = True, dev = 1, blockno = 5, slock = False, spid = 0, refcnt = 0, nxt = Head 1, timestamp = 10\<rparr>,
              \<lparr>valid = True, dev = 1, blockno = 7, slock = False, spid = 0, refcnt = 0, nxt = Slot 0, timestamp = 11\<rparr>],
      past_refcnt = 0,
      table = [\<lparr>tlock = False, head = \<lparr>valid = False, dev = 0, blockno = 0, slock = False, spid = 0, refcnt = 0,
                  nxt = Head 0, timestamp = 0\<rparr>\<rparr>,
               \<lparr>tlock = False, head = \<lparr>valid = False, dev = 0, blockno = 0, slock = False, spid = 0, refcnt = 0,
                  nxt = Slot 1, timestamp = 0\<rparr>\<rparr>],
      ticks = 11, disk_log = [(False, 1, 5), (False, 1, 7)], curproc = 1\<rparr>"
  by code_simp

lemma first_is_oldest_state:
  "first_is_oldest = \<lparr>glock = False,
      bufs = [\<lparr>valid = True, dev = 1, blockno = 5, slock = False, spid = 0, refcnt = 0, nxt = Head 1, timestamp = 11\<rparr>,
              \<lparr>valid = True, dev = 1, blockno = 7, slock = False, spid = 0, refcnt = 0, nxt = Slot 0, timestamp = 10\<rparr>],
      past_refcnt = 0,
      table = [\<lparr>tlock = False, head = \<lparr>valid = False, dev = 0, blockno = 0, slock = False, spid = 0, refcnt = 0,
                 nxt = Head 0, timestamp = 0\<rparr>\<rparr>,
               \<lparr>tlock = False, head = \<lparr>valid = False, dev = 0, blockno = 0, slock = False, spid = 0, refcnt = 0,
                 nxt = Slot 1, timestamp = 0\<rparr>\<rparr>],
      ticks = 11, disk_log = [(False, 1, 5), (False, 1, 7)], curproc = 1\<rparr>"
  by code_simp

lemma past_one_state:
  "past_one = \<lparr>glock = False,
      bufs = [\<lparr>valid = True, dev = 1, blockno = 5, slock = False, spid = 0, refcnt = 0, nxt = Head 1, timestamp = 11\<rparr>,
              \<lparr>valid = True, dev = 1, blockno = 7, slock = False, spid = 0, refcnt = 0, nxt = Slot 0, timestamp = 10\<rparr>],
      past_refcnt = 1,
      table = [\<lparr>tlock = False, head = \<lparr>valid = False, dev = 0, blockno = 0, slock = False, spid = 0, refcnt = 0,
                 nxt = Head 0, timestamp = 0\<rparr>\<rparr>,
               \<lparr>tlock = False, head = \<lparr>valid = False, dev = 0, blockno = 0, slock = False, spid = 0, refcnt = 0,
                 nxt = Slot 1, timestamp = 0\<rparr>\<rparr>],
      ticks = 11, disk_log = [(False, 1, 5), (False, 1, 7)], curproc = 1\<rparr>"
  by code_simp

text \<open>
  When the oldest unused slot is the first of its old bucket, the unlinking loop stops at the
  list head and the slot moves: here slot 1 leaves bucket 1, which keeps slot 0, and becomes
  the only slot of bucket 0, bound to block 4.
\<close>

lemma first_slot_migrates:
  "bget first_is_oldest 1 4 =
     Some (Inr (Slot 1,
       \<lparr>glock = False,
        bufs = [\<lparr>valid = True, dev = 1, blockno = 5, slock = False, spid = 0, refcnt = 0, nxt = Head 1, timestamp = 11\<rparr>,
                \<lparr>valid = False, dev = 1, blockno = 4, slock = True, spid = 1, refcnt = 1, nxt = Head 0, timestamp = 10\<rparr>],
        past_refcnt = 0,
        table = [\<lparr>tlock = False, head = \<lparr>valid = False, dev = 0, blockno = 0, slock = False, spid = 0, refcnt = 0,
                    nxt = Slot 1, timestamp = 0\<rparr>\<rparr>,
                 \<lparr>tlock = False, head = \<lparr>valid = False, dev = 0, blockno = 0, slock = False, spid = 0, refcnt = 0,
                    nxt = Slot 0, timestamp = 0\<rparr>\<rparr>],
        ticks = 11, disk_log = [(False, 1, 5), (False, 1, 7)], curproc = 1\<rparr>))"
  by code_simp

lemma evict_spins:
  assumes "bget_evict s idx d bn r = Some res"
  shows "r = Null \<longrightarrow> scan_all (bufs s) Null \<noteq> Null"
proof (rule bget_evict.raw_induct [where P = "\<lambda>s idx d bn r res. r = Null \<longrightarrow> scan_all (bufs s) Null \<noteq> Null",
         OF _ assms], goal_cases)
  case (1 ev s idx d bn replbuf res)
  show ?case
  proof (intro impI notI)
    assume r: "replbuf = Null" and n: "scan_all (bufs s) Null = Null"
    with 1(2) have "ev s idx d bn Null = Some res" by (simp add: Let_def)
    from 1(1) [OF this] n show False by simp
  qed
qed

lemma evict_spins_None: "scan_all (bufs s) Null = Null \<Longrightarrow> bget_evict s idx d bn Null = None"
  using evict_spins [of s idx d bn Null] by (cases "bget_evict s idx d bn Null") auto

text \<open>
  A round whose re-check fails returns to the scan with the locks it had. When the scan
  chooses the same slot again and the re-check fails without changing the state, every round
  is the first one: the loop does not return.
\<close>

lemma evict_retries:
  assumes "bget_evict s0 idx0 d0 bn0 r0 = Some res"
  shows "\<not> (r \<noteq> Null \<and> scan_all (bufs s0) Null = r \<and> scan_all (bufs s0) r = r \<and>
            bget_recheck s0 idx0 d0 bn0 r = Inl s0 \<and> (r0 = Null \<or> r0 = r))"
proof (rule bget_evict.raw_induct [where P = "\<lambda>s0 idx0 d0 bn0 r0 res.
           \<not> (r \<noteq> Null \<and> scan_all (bufs s0) Null = r \<and> scan_all (bufs s0) r = r \<and>
              bget_recheck s0 idx0 d0 bn0 r = Inl s0 \<and> (r0 = Null \<or> r0 = r))",
         OF _ assms], goal_cases)
  case (1 ev s idx d bn replbuf res)
  show ?case
  proof (intro notI)
    assume a: "r \<noteq> Null \<and> scan_all (bufs s) Null = r \<and> scan_all (bufs s) r = r \<and>
               bget_recheck s idx d bn r = Inl s \<and> (replbuf = Null \<or> replbuf = r)"
    then have sc: "scan_all (bufs s) replbuf = r" by auto
    with 1(2) a have "ev s idx d bn r = Some res" by (simp add: Let_def)
    from 1(1) [OF this] a show False by simp
  qed
qed

lemma evict_retries_None:
  assumes "r \<noteq> Null" and "scan_all (bufs s) Null = r" and "scan_all (bufs s) r = r"
    and "bget_recheck s idx d bn r = Inl s"
  shows "bget_evict s idx d bn Null = None"
proof (cases "bget_evict s idx d bn Null")
  case None
  then show ?thesis .
next
  case (Some res)
  from evict_retries [OF this, of r] assms show ?thesis by simp
qed

text \<open>
  \<open>brelse\<close> of a buffer whose sleep lock another process holds panics: in \<open>both_held\<close> process 1
  holds both buffers, and process 2 releases slot 0.
\<close>

lemma brelse_not_holder:
  "brelse (after_call both_held (Run 2)) (Slot 0) = Inl (Panic ''brelse'') \<and>
   \<not> isl (brelse both_held (Slot 0))"
  unfolding both_held_state by code_simp

lemma chain_bufs: "bufs s' = bufs s \<Longrightarrow> chain s' idx b js = chain s idx b js"
  by (induction js arbitrary: b) simp_all

lemma scan_cached_bufs:
  "chain s idx b (pre @ j # post) \<Longrightarrow>
   \<forall>i\<in>set pre. dev (bufs s ! i) \<noteq> d \<or> blockno (bufs s ! i) \<noteq> bn \<Longrightarrow>
   dev (bufs s ! j) = d \<and> blockno (bufs s ! j) = bn \<Longrightarrow>
   scan_cached s idx d bn b = Some (Inr (Some (Slot j)))"
proof (induction pre arbitrary: b)
  case Nil
  then show ?case by (subst scan_cached.simps) simp
next
  case (Cons i pre)
  from Cons.prems have b: "b = Slot i" "i < length (bufs s)"
    and rest: "chain s idx (nxt (bufs s ! i)) (pre @ j # post)"
    and no: "dev (bufs s ! i) \<noteq> d \<or> blockno (bufs s ! i) \<noteq> bn" by auto
  have "scan_cached s idx d bn b = scan_cached s idx d bn (nxt (bufs s ! i))"
    using b no by (subst scan_cached.simps) auto
  also have "\<dots> = Some (Inr (Some (Slot j)))"
    using Cons.IH [OF rest] Cons.prems by simp
  finally show ?case .
qed

lemma chain_mem: "chain s idx b js \<Longrightarrow> j \<in> set js \<Longrightarrow> j < length (bufs s)"
  by (induction js arbitrary: b) auto

section \<open>Properties of the buffer cache\<close>

text \<open>
  Claim C2, evaluated at the re-check of a round that is reached. In \<open>first_is_oldest\<close> both
  slots are unused and in bucket 1, slot 1 the older. \<open>bget(1, 4)\<close> finds bucket 0 empty and is
  the loop over all slots from the state \<open>scanning\<close>, whose scan chooses slot 1. In
  \<open>recheck_taken\<close> another core has taken slot 1 since the scan (\<open>refcnt\<close> is 1): the round
  nevertheless commits, unlinks slot 1 and rebinds it to block 4 with \<open>refcnt\<close> 1. In
  \<open>past_one\<close>, the same cache with the word behind the slot array being 1, the scan chooses
  slot 1 as well and slot 1 is still unused at the re-check: the round nevertheless releases the
  lock of bucket 1 and goes round again in the state it started from, so the call does not
  return. The test reads the word behind the slot array, not the chosen slot.
\<close>

theorem recheck_reads_past_array:
  "bget first_is_oldest 1 4 = bget_evict scanning 0 1 4 Null \<and>
   scan_all (bufs scanning) Null = Slot 1 \<and>
   refcnt (bufs recheck_taken ! 1) = 1 \<and>
   bget_recheck recheck_taken 0 1 4 (Slot 1) =
     Inr (Some (Inr (Slot 1,
       recheck_taken\<lparr>glock := False,
         bufs := [bufs recheck_taken ! 0,
                  \<lparr>valid = False, dev = 1, blockno = 4, slock = True, spid = 1, refcnt = 1, nxt = Head 0, timestamp = 10\<rparr>],
         table := [\<lparr>tlock = False, head = (head (table recheck_taken ! 0))\<lparr>nxt := Slot 1\<rparr>\<rparr>,
                   \<lparr>tlock = False, head = (head (table recheck_taken ! 1))\<lparr>nxt := Slot 0\<rparr>\<rparr>]\<rparr>))) \<and>
   bget past_one 1 4 = bget_evict recheck_unused 0 1 4 Null \<and>
   scan_all (bufs recheck_unused) Null = Slot 1 \<and>
   refcnt (bufs recheck_unused ! 1) = 0 \<and>
   bget_recheck recheck_unused 0 1 4 (Slot 1) = Inl recheck_unused \<and>
   bget past_one 1 4 = None"
proof -
  let ?s1 = "acquire_bucket 0 first_is_oldest"
  let ?p1 = "acquire_bucket 0 past_one"
  have h: "hash (length (table first_is_oldest)) 4 = 0" "0 < length (table first_is_oldest)"
    by (simp_all add: first_is_oldest_state hash_def crem_def)
  have c: "scan_cached ?s1 0 1 4 (nxt (head (table ?s1 ! 0))) = Some (Inr None)"
    unfolding first_is_oldest_state by code_simp
  have l: "scan_lru ?s1 0 (nxt (head (table ?s1 ! 0))) 0xffffffff Null = Some (Inr Null)"
    unfolding first_is_oldest_state by code_simp
  have 1: "bget first_is_oldest 1 4 = bget_evict scanning 0 1 4 Null"
    using h c l by (simp add: bget_def Let_def scanning_def)
  have 2: "scan_all (bufs scanning) Null = Slot 1"
    unfolding scanning_def first_is_oldest_state by code_simp
  have 3: "refcnt (bufs recheck_taken ! 1) = 1"
    unfolding recheck_taken_def scanning_def first_is_oldest_state by code_simp
  have 4: "bget_recheck recheck_taken 0 1 4 (Slot 1) =
     Inr (Some (Inr (Slot 1,
       recheck_taken\<lparr>glock := False,
         bufs := [bufs recheck_taken ! 0,
                  \<lparr>valid = False, dev = 1, blockno = 4, slock = True, spid = 1, refcnt = 1, nxt = Head 0, timestamp = 10\<rparr>],
         table := [\<lparr>tlock = False, head = (head (table recheck_taken ! 0))\<lparr>nxt := Slot 1\<rparr>\<rparr>,
                   \<lparr>tlock = False, head = (head (table recheck_taken ! 1))\<lparr>nxt := Slot 0\<rparr>\<rparr>]\<rparr>)))"
    unfolding recheck_taken_def scanning_def first_is_oldest_state by code_simp
  have hp: "hash (length (table past_one)) 4 = 0" "0 < length (table past_one)"
    by (simp_all add: past_one_state hash_def crem_def)
  have cp: "scan_cached ?p1 0 1 4 (nxt (head (table ?p1 ! 0))) = Some (Inr None)"
    unfolding past_one_state by code_simp
  have lp: "scan_lru ?p1 0 (nxt (head (table ?p1 ! 0))) 0xffffffff Null = Some (Inr Null)"
    unfolding past_one_state by code_simp
  have 5: "bget past_one 1 4 = bget_evict recheck_unused 0 1 4 Null"
    using hp cp lp by (simp add: bget_def Let_def recheck_unused_def)
  have 6: "scan_all (bufs recheck_unused) Null = Slot 1"
    unfolding recheck_unused_def past_one_state by code_simp
  have 10: "scan_all (bufs recheck_unused) (Slot 1) = Slot 1"
    unfolding recheck_unused_def past_one_state by code_simp
  have 7: "refcnt (bufs recheck_unused ! 1) = 0"
    unfolding recheck_unused_def past_one_state by code_simp
  have 8: "bget_recheck recheck_unused 0 1 4 (Slot 1) = Inl recheck_unused"
    unfolding recheck_unused_def past_one_state by code_simp
  have "bget_evict recheck_unused 0 1 4 Null = None"
    using 6 10 8 by (intro evict_retries_None [where r = "Slot 1"]) simp_all
  with 5 have 9: "bget past_one 1 4 = None" by simp
  from 1 2 3 4 5 6 7 8 9 show ?thesis by blast
qed

text \<open>
  Claim C3, evaluated where the winning slot is not the first of its old bucket. In
  \<open>both_released\<close> bucket 1 lists slot 1 and then slot 0, and slot 0 is the oldest unused slot.
  \<open>bget(1, 4)\<close> finds bucket 0 empty and chooses slot 0; the unlinking loop then leaves the list
  head of bucket 1 by \<open>b++\<close> instead of following the list.
\<close>

theorem unlink_walks_off: "bget both_released 1 4 = Some (Inl Fault)"
  unfolding both_released_state by code_simp

text \<open>
  Claim C4, evaluated where no slot is unused. In \<open>both_held\<close> both slots are in use.
  \<open>bget(1, 4)\<close> reaches the loop over all slots, whose scan finds nothing in every round: the
  call is that loop, and it neither panics nor returns.
\<close>

theorem no_free_slot_spins:
  "bget both_held 1 4 = bget_evict ((acquire_bucket 0 both_held)\<lparr>glock := True\<rparr>) 0 1 4 Null \<and>
   scan_all (bufs both_held) Null = Null \<and>
   bget both_held 1 4 = None"
proof -
  let ?s1 = "acquire_bucket 0 both_held"
  have h: "hash (length (table both_held)) 4 = 0"
    by (simp add: both_held_state hash_def crem_def)
  have c: "scan_cached ?s1 0 1 4 (nxt (head (table ?s1 ! 0))) = Some (Inr None)"
    unfolding both_held_state by code_simp
  have l: "scan_lru ?s1 0 (nxt (head (table ?s1 ! 0))) 0xffffffff Null = Some (Inr Null)"
    unfolding both_held_state by code_simp
  have a: "scan_all (bufs (?s1\<lparr>glock := True\<rparr>)) Null = Null"
    unfolding both_held_state by code_simp
  have n: "0 < length (table both_held)" by (simp add: both_held_state)
  have e: "bget both_held 1 4 = bget_evict (?s1\<lparr>glock := True\<rparr>) 0 1 4 Null"
    using h c l n by (simp add: bget_def Let_def)
  have b: "scan_all (bufs both_held) Null = Null"
    unfolding both_held_state by code_simp
  have "bget_evict (?s1\<lparr>glock := True\<rparr>) 0 1 4 Null = None" using a by (rule evict_spins_None)
  with e b show ?thesis by simp
qed

text \<open>
  Claim C6. Let the list of the target bucket consist of the slots \<open>pre\<close>, then slot \<open>j\<close>, then
  \<open>post\<close>, where \<open>j\<close> is bound to \<open>(d, bn)\<close>, no slot of \<open>pre\<close> is, and the sleep lock of \<open>j\<close> is
  free. Then \<open>bget d bn\<close> returns slot \<open>j\<close>, and the state differs from the one before only in that
  \<open>refcnt\<close> of \<open>j\<close> is one more and its sleep lock is held (and the bucket's lock is free): no list
  link and no binding has changed. If moreover slot \<open>j\<close> is valid, \<open>bread d bn\<close> is this same
  result: no disk transfer is made.
\<close>

theorem bget_hit:
  assumes idx: "hash (length (table s)) bn = int idx" and lt: "idx < length (table s)"
    and ch: "chain s idx (nxt (head (table s ! idx))) (pre @ j # post)"
    and miss: "\<forall>i\<in>set pre. dev (bufs s ! i) \<noteq> d \<or> blockno (bufs s ! i) \<noteq> bn"
    and hit: "dev (bufs s ! j) = d \<and> blockno (bufs s ! j) = bn"
    and free: "\<not> slock (bufs s ! j)"
  shows "bget s d bn =
           Some (Inr (Slot j,
             s\<lparr>table := (table s)[idx := (table s ! idx)\<lparr>tlock := False\<rparr>],
               bufs := (bufs s)[j := (bufs s ! j)\<lparr>refcnt := refcnt (bufs s ! j) + 1, slock := True, spid := curproc s\<rparr>]\<rparr>)) \<and>
         (valid (bufs s ! j) \<longrightarrow> bread s d bn = bget s d bn)"
proof -
  let ?s1 = "acquire_bucket idx s"
  let ?s' = "s\<lparr>table := (table s)[idx := (table s ! idx)\<lparr>tlock := False\<rparr>],
               bufs := (bufs s)[j := (bufs s ! j)\<lparr>refcnt := refcnt (bufs s ! j) + 1, slock := True, spid := curproc s\<rparr>]\<rparr>"
  have j: "j < length (bufs s)" using chain_mem [OF ch, of j] by simp
  have hd: "nxt (head (table ?s1 ! idx)) = nxt (head (table s ! idx))"
    by (simp add: acquire_bucket_def head_lock_update)
  have ch1: "chain ?s1 idx (nxt (head (table s ! idx))) (pre @ j # post)"
    using ch chain_bufs [of ?s1 s] by (simp add: acquire_bucket_def)
  have b1: "bufs ?s1 = bufs s" by (simp add: acquire_bucket_def)
  have sc: "scan_cached ?s1 idx d bn (nxt (head (table ?s1 ! idx))) = Some (Inr (Some (Slot j)))"
    unfolding hd using ch1 miss hit by (intro scan_cached_bufs [where pre = pre and post = post]) (simp_all add: b1)
  have h: "\<not> (hash (length (table s)) bn < 0 \<or> int (length (table s)) \<le> hash (length (table s)) bn)"
    using idx lt by simp
  have fin: "acquiresleep (Slot j) (release_bucket idx (modify (Slot j) (\<lambda>x. x\<lparr>refcnt := refcnt x + 1\<rparr>) ?s1))
             = Some (Inr (Slot j, ?s'))"
    using j free lt by (simp add: acquiresleep_def release_bucket_def acquire_bucket_def)
  have eq: "bget s d bn = Some (Inr (Slot j, ?s'))"
    using h sc fin idx by (simp add: bget_def Let_def)
  have "bread s d bn = bget s d bn" if "valid (bufs s ! j)"
    using that eq j by (simp add: bread_def)
  with eq show ?thesis by simp
qed

text \<open>
  Scenario C: after block 5 was read and released, reading it again is a hit on slot 0, and
  the log of disk transfers still holds the one read of the first call.
\<close>

theorem bget_hit_witness:
  "bget scenarioC 1 5 =
     Some (Inr (Slot 0, scenarioC\<lparr>bufs := (bufs scenarioC)[0 := (bufs scenarioC ! 0)\<lparr>refcnt := 1, slock := True, spid := 1\<rparr>]\<rparr>)) \<and>
   bread scenarioC 1 5 = bget scenarioC 1 5 \<and>
   disk_log scenarioC = [(False, 1, 5)] \<and>
   scenarioC = after_calls cache0 [BRead 1 5, Tick 3, BRelse 0]"
proof -
  have 1: "hash (length (table scenarioC)) 5 = int 1" "1 < length (table scenarioC)"
    by (simp_all add: scenarioC_state hash_def crem_def)
  have 2: "chain scenarioC 1 (nxt (head (table scenarioC ! 1))) ([] @ 0 # [])"
    by (simp add: scenarioC_state)
  have 3: "\<forall>i\<in>set []. dev (bufs scenarioC ! i) \<noteq> 1 \<or> blockno (bufs scenarioC ! i) \<noteq> 5" by simp
  have 4: "dev (bufs scenarioC ! 0) = 1 \<and> blockno (bufs scenarioC ! 0) = 5"
    "\<not> slock (bufs scenarioC ! 0)" "valid (bufs scenarioC ! 0)"
    by (simp_all add: scenarioC_state)
  have 5: "(table scenarioC)[1 := (table scenarioC ! 1)\<lparr>tlock := False\<rparr>] = table scenarioC"
    "refcnt (bufs scenarioC ! 0) + 1 = 1" "curproc scenarioC = 1"
    by (simp_all add: scenarioC_state)
  have 6: "disk_log scenarioC = [(False, 1, 5)]" by (simp add: scenarioC_state)
  have 7: "scenarioC = after_calls cache0 [BRead 1 5, Tick 3, BRelse 0]" by (simp add: scenarioC_def)
  from bget_hit [OF 1 2 3 4(1,2)] 4(3) 5 have
    "bget scenarioC 1 5 =
     Some (Inr (Slot 0, scenarioC\<lparr>bufs := (bufs scenarioC)[0 := (bufs scenarioC ! 0)\<lparr>refcnt := 1, slock := True, spid := 1\<rparr>]\<rparr>)) \<and>
     bread scenarioC 1 5 = bget scenarioC 1 5"
    by simp
  with 6 7 show ?thesis by blast
qed

text \<open>
  Claim C7. Whenever the first loop of \<open>bget d bn\<close> finds no slot bound to \<open>(d, bn)\<close> and the call
  returns a buffer, that buffer has device \<open>d\<close>, block number \<open>bn\<close>, is not valid and has
  \<open>refcnt\<close> 1, whichever way it was found and whatever it held before.
\<close>

theorem bget_miss_binds:
  assumes ret: "bget s d bn = Some (Inr (b, s'))"
    and miss: "cache_lookup s d bn = Some (Inr None)"
  shows "\<exists>x. deref s' b = Some x \<and> dev x = d \<and> blockno x = bn \<and> \<not> valid x \<and> refcnt x = 1"
proof -
  let ?idx = "nat (hash (length (table s)) bn)"
  let ?s1 = "acquire_bucket ?idx s"
  from miss have sc: "scan_cached ?s1 ?idx d bn (nxt (head (table ?s1 ! ?idx))) = Some (Inr None)"
    by (simp add: cache_lookup_def bucket_of_def Let_def)
  from ret have h: "\<not> (hash (length (table s)) bn < 0 \<or> int (length (table s)) \<le> hash (length (table s)) bn)"
    by (auto simp: bget_def Let_def split: if_splits)
  obtain r where l: "scan_lru ?s1 ?idx (nxt (head (table ?s1 ! ?idx))) 0xffffffff Null = Some (Inr r)"
    and fin: "(if r \<noteq> Null then bget_find ?s1 ?idx d bn r
               else bget_evict (?s1\<lparr>glock := True\<rparr>) ?idx d bn r) = Some (Inr (b, s'))"
    using ret h sc by (auto simp: bget_def Let_def split: option.splits sum.splits)
  show ?thesis
  proof (cases "r = Null")
    case True
    with fin have "bget_evict (?s1\<lparr>glock := True\<rparr>) ?idx d bn r = Some (Inr (b, s'))" by simp
    from bget_evict_post [OF this] show ?thesis by simp
  next
    case False
    with fin have "bget_find ?s1 ?idx d bn r = Some (Inr (b, s'))" by simp
    from bget_find_post [OF this] show ?thesis by blast
  qed
qed

text \<open>
  In Scenario C's state a request for block 7 recycles the valid slot 0 of bucket 1; in the
  cache after \<open>binit\<close> a request for block 4 takes the unbound slot 0 through the scan of all
  slots.
\<close>

theorem bget_miss_binds_witness:
  "cache_lookup scenarioC 1 7 = Some (Inr None) \<and> valid (bufs scenarioC ! 0) \<and>
   (\<exists>s'. bget scenarioC 1 7 = Some (Inr (Slot 0, s')) \<and>
      (\<exists>x. deref s' (Slot 0) = Some x \<and> dev x = 1 \<and> blockno x = 7 \<and> \<not> valid x \<and> refcnt x = 1)) \<and>
   cache_lookup cache0 1 4 = Some (Inr None) \<and>
   (\<exists>s'. bget cache0 1 4 = Some (Inr (Slot 0, s')) \<and>
      (\<exists>x. deref s' (Slot 0) = Some x \<and> dev x = 1 \<and> blockno x = 4 \<and> \<not> valid x \<and> refcnt x = 1))"
proof -
  have m1: "cache_lookup scenarioC 1 7 = Some (Inr None)"
    unfolding scenarioC_state by code_simp
  have v: "valid (bufs scenarioC ! 0)" by (simp add: scenarioC_state)
  obtain s1 where r1: "bget scenarioC 1 7 = Some (Inr (Slot 0, s1))"
  proof -
    have "bget scenarioC 1 7 = Some (Inr (Slot 0, scenarioC\<lparr>bufs :=
       [\<lparr>valid = False, dev = 1, blockno = 7, slock = True, spid = 1, refcnt = 1, nxt = Head 1, timestamp = 3\<rparr>,
        \<lparr>valid = False, dev = 0, blockno = - 1, slock = False, spid = 0, refcnt = 0, nxt = Null, timestamp = 0\<rparr>]\<rparr>))"
      unfolding scenarioC_state by code_simp
    then show ?thesis using that by blast
  qed
  have m2: "cache_lookup cache0 1 4 = Some (Inr None)"
    by code_simp
  obtain s2 where r2: "bget cache0 1 4 = Some (Inr (Slot 0, s2))"
  proof -
    have "bget cache0 1 4 = Some (Inr (Slot 0, cache0\<lparr>bufs :=
       [\<lparr>valid = False, dev = 1, blockno = 4, slock = True, spid = 1, refcnt = 1, nxt = Head 0, timestamp = 0\<rparr>,
        \<lparr>valid = False, dev = 0, blockno = - 1, slock = False, spid = 0, refcnt = 0, nxt = Null, timestamp = 0\<rparr>],
       table := [\<lparr>tlock = False, head = \<lparr>valid = False, dev = 0, blockno = 0, slock = False, spid = 0, refcnt = 0,
                  nxt = Slot 0, timestamp = 0\<rparr>\<rparr>,
               \<lparr>tlock = False, head = \<lparr>valid = False, dev = 0, blockno = 0, slock = False, spid = 0, refcnt = 0,
                  nxt = Head 1, timestamp = 0\<rparr>\<rparr>]\<rparr>))"
      by code_simp
    then show ?thesis using that by blast
  qed
  from bget_miss_binds [OF r1 m1] bget_miss_binds [OF r2 m2] m1 m2 v r1 r2
  show ?thesis by blast
qed

end
